theory Spec2Isabelle
  imports Main
begin

section \<open>Staking rewards export: data model\<close>

text \<open>
  The JavaScript sources compute with \<open>BigInt\<close> (unbounded integers, modelled as \<open>int\<close>)
  and with epoch numbers (JavaScript numbers holding small integers, modelled as \<open>int\<close>).
  A thrown exception is a value of type \<open>error\<close> on the left of a sum.
\<close>

datatype error = TypeError | RequestFailed

text \<open>
  One record of a validator's history. The API delivers \<open>active_balance\<close> and
  \<open>active_shares\<close> as decimal strings; \<open>None\<close> stands for an absent (falsy) field, which
  the code replaces by a default (\<open>|| "0"\<close>, \<open>|| "1"\<close>).
\<close>

record history_entry =
  epoch :: int
  active_balance :: "int option"
  active_shares :: "int option"

section \<open>Numeric formatting\<close>

text \<open>
  \<open>BigInt.prototype.toString()\<close>: the decimal digits of the absolute value, most
  significant first, after a minus sign for a negative value.
\<close>

definition digit_char :: "nat \<Rightarrow> char" where
  "digit_char d = char_of (48 + d)"

fun nat_digits :: "nat \<Rightarrow> string" where
  "nat_digits n = (if n < 10 then [digit_char n] else nat_digits (n div 10) @ [digit_char (n mod 10)])"

definition bigint_toString :: "int \<Rightarrow> string" where
  "bigint_toString x = (if x < 0 then CHR ''-'' # nat_digits (nat (- x)) else nat_digits (nat x))"

text \<open>
  The string methods \<open>toRose\<close> calls: \<open>padStart(n, "0")\<close>, \<open>slice(0, -n)\<close>,
  \<open>slice(-n)\<close> (where \<open>-0\<close> is \<open>0\<close>, so \<open>slice(0, -0)\<close> is empty and \<open>slice(-0)\<close>
  is the whole string), \<open>replace(/0+$/, "")\<close> and \<open>s || "0"\<close>.
\<close>

definition padStart :: "nat \<Rightarrow> char \<Rightarrow> string \<Rightarrow> string" where
  "padStart n c s = replicate (n - length s) c @ s"

definition slice_to_neg :: "string \<Rightarrow> nat \<Rightarrow> string" where
  "slice_to_neg s n = (if n = 0 then [] else take (length s - n) s)"

definition slice_from_neg :: "string \<Rightarrow> nat \<Rightarrow> string" where
  "slice_from_neg s n = (if n = 0 then s else drop (length s - n) s)"

definition strip_trailing_zeros :: "string \<Rightarrow> string" where
  "strip_trailing_zeros s = rev (dropWhile (\<lambda>c. c = CHR ''0'') (rev s))"

definition or_string :: "string \<Rightarrow> string \<Rightarrow> string" where
  "or_string s d = (if s = [] then d else s)"

definition ROSE_DECIMALS :: nat where
  "ROSE_DECIMALS = 9"

definition toRose :: "int \<Rightarrow> nat \<Rightarrow> string" where
  "toRose baseUnits extraDecimals =
     (let totalDecimals = ROSE_DECIMALS + extraDecimals;
          str = bigint_toString baseUnits;
          isNegative = (take 1 str = ''-'');
          absStr = (if isNegative then drop 1 str else str);
          padded = padStart (totalDecimals + 1) (CHR ''0'') absStr;
          intPart = or_string (slice_to_neg padded totalDecimals) ''0'';
          decPart = or_string (strip_trailing_zeros (slice_from_neg padded totalDecimals)) ''0'';
          result = (if decPart = ''0'' then intPart else intPart @ ''.'' @ decPart)
      in if isNegative then ''-'' @ result else result)"

text \<open>
  The reading of a rendered amount back as a scaled decimal, following the spec's
  \<open>parse(format(amount)) == amount\<close>: an optional minus sign, the integer digits, and
  after an optional point the fractional digits, padded on the right to the fractional
  width.
\<close>

definition digits_value :: "string \<Rightarrow> nat" where
  "digits_value ds = foldl (\<lambda>acc c. 10 * acc + (of_char c - 48)) 0 ds"

definition parse_scaled :: "nat \<Rightarrow> string \<Rightarrow> int" where
  "parse_scaled totalDecimals s =
     (let isNegative = (take 1 s = ''-'');
          body = (if isNegative then drop 1 s else s);
          intDigits = takeWhile (\<lambda>c. c \<noteq> CHR ''.'') body;
          fracDigits = drop 1 (dropWhile (\<lambda>c. c \<noteq> CHR ''.'') body);
          scaled = int (digits_value intDigits) * 10 ^ totalDecimals
                   + int (digits_value (fracDigits @ replicate (totalDecimals - length fracDigits) (CHR ''0'')))
      in if isNegative then - scaled else scaled)"

text \<open>The decimal digits, and the rendering of the digits of an absolute value.\<close>

definition is_digit :: "char \<Rightarrow> bool" where
  "is_digit c = (48 \<le> (of_char c :: nat) \<and> (of_char c :: nat) \<le> 57)"

definition render_abs :: "nat \<Rightarrow> string \<Rightarrow> string" where
  "render_abs totalDecimals absStr =
     (let padded = padStart (totalDecimals + 1) (CHR ''0'') absStr;
          intPart = or_string (slice_to_neg padded totalDecimals) ''0'';
          decPart = or_string (strip_trailing_zeros (slice_from_neg padded totalDecimals)) ''0''
      in if decPart = ''0'' then intPart else intPart @ ''.'' @ decPart)"

section \<open>Snapshot locator\<close>

text \<open>
  The \<open>while (low <= high)\<close> loop of \<open>findHistoryEntryForEpoch\<close>. Reading
  \<open>history[mid].epoch\<close> at an index outside the array throws a TypeError in JavaScript.
\<close>

function bsearch_loop ::
  "history_entry list \<Rightarrow> int \<Rightarrow> int \<Rightarrow> int \<Rightarrow> history_entry option \<Rightarrow> error + history_entry option"
where
  "bsearch_loop history targetEpoch low high result =
     (if low \<le> high then
        (let mid = (low + high) div 2 in
         if mid < 0 \<or> int (length history) \<le> mid then Inl TypeError
         else if epoch (history ! nat mid) \<le> targetEpoch
           then bsearch_loop history targetEpoch (mid + 1) high (Some (history ! nat mid))
           else bsearch_loop history targetEpoch low (mid - 1) result)
      else Inr result)"
  by pat_completeness auto
termination
  by (relation "measure (\<lambda>(history, targetEpoch, low, high, result). nat (high - low + 1))") auto

definition findHistoryEntryForEpoch ::
  "history_entry list \<Rightarrow> int \<Rightarrow> error + history_entry option"
where
  "findHistoryEntryForEpoch history targetEpoch =
     (if history = [] then Inr None
      else bsearch_loop history targetEpoch 0 (int (length history) - 1) None)"

section \<open>Position value\<close>

text \<open>\<open>BigInt\<close> division truncates toward zero.\<close>

definition bigint_div :: "int \<Rightarrow> int \<Rightarrow> int" where
  "bigint_div a b = sgn a * sgn b * (\<bar>a\<bar> div \<bar>b\<bar>)"

definition calculateShareValue :: "history_entry option \<Rightarrow> int" where
  "calculateShareValue historyEntry =
     (let balance = (case historyEntry of None \<Rightarrow> 0
                     | Some h \<Rightarrow> (case active_balance h of None \<Rightarrow> 0 | Some b \<Rightarrow> b));
          poolShares = (case historyEntry of None \<Rightarrow> 1
                        | Some h \<Rightarrow> (case active_shares h of None \<Rightarrow> 1 | Some s \<Rightarrow> s))
      in if poolShares = 0 then 0 else bigint_div (balance * 10 ^ 18) poolShares)"

definition calculateTotalValue :: "int \<Rightarrow> history_entry option \<Rightarrow> int" where
  "calculateTotalValue userShares historyEntry =
     (case historyEntry of
        None \<Rightarrow> 0
      | Some h \<Rightarrow>
          (let balance = (case active_balance h of None \<Rightarrow> 0 | Some b \<Rightarrow> b);
               poolShares = (case active_shares h of None \<Rightarrow> 1 | Some s \<Rightarrow> s)
           in if poolShares = 0 then 0 else bigint_div (userShares * balance) poolShares))"

section \<open>Epoch sampler\<close>

text \<open>
  \<open>step = Math.max(1, Math.floor(totalEpochs / targetSamples))\<close> with
  \<open>totalEpochs = endEpoch - startEpoch + 1\<close> and \<open>targetSamples = 12\<close>.
\<close>

definition sample_step :: "int \<Rightarrow> int \<Rightarrow> int" where
  "sample_step startEpoch endEpoch =
     (let totalEpochs = endEpoch - startEpoch + 1; targetSamples = 12
      in max 1 (totalEpochs div targetSamples))"

text \<open>
  \<open>for (let e = startEpoch + step; e <= endEpoch; e += step) epochsToProcess.push(e)\<close>,
  entered at the current value of \<open>e\<close> with the samples pushed so far.
\<close>

function month_loop :: "int \<Rightarrow> int \<Rightarrow> int \<Rightarrow> int list \<Rightarrow> int list" where
  "month_loop startEpoch endEpoch e epochsToProcess =
     (if e \<le> endEpoch
      then month_loop startEpoch endEpoch (e + sample_step startEpoch endEpoch) (epochsToProcess @ [e])
      else epochsToProcess)"
  by pat_completeness auto
termination
  by (relation "measure (\<lambda>(startEpoch, endEpoch, e, epochsToProcess). nat (endEpoch - e + 1))")
    (auto simp: sample_step_def Let_def)

text \<open>
  The sample epochs of a run (\<open>epochsToProcess\<close> in the source): one sample at the period
  end for granularity \<open>"year"\<close>, the stepped samples closed by \<open>endEpoch\<close> for any other
  granularity.
\<close>

definition epochsToProcess :: "string \<Rightarrow> int \<Rightarrow> int \<Rightarrow> int list" where
  "epochsToProcess granularity startEpoch endEpoch =
     (if granularity = ''year'' then [endEpoch]
      else
        (let stepped = month_loop startEpoch endEpoch
                         (startEpoch + sample_step startEpoch endEpoch) []
         in if stepped = [] \<or> last stepped \<noteq> endEpoch then stepped @ [endEpoch] else stepped))"

section \<open>Share-position reconstruction\<close>

text \<open>
  The body of an event as the index API returns it. \<open>None\<close> is an absent (falsy) field;
  the share and amount fields are decimal strings, read by \<open>BigInt\<close>.
\<close>

record event_body =
  owner :: "string option"
  escrow :: "string option"
  body_epoch :: "int option"
  new_shares :: "int option"
  debonding_shares :: "int option"
  body_amount :: "int option"

text \<open>\<open>address?.toLowerCase() || ""\<close>, on the ASCII letters of an address.\<close>

definition toLowerCase :: "string \<Rightarrow> string" where
  "toLowerCase a =
     map (\<lambda>c. if 65 \<le> (of_char c :: nat) \<and> (of_char c :: nat) \<le> 90
               then char_of ((of_char c :: nat) + 32) else c) a"

definition normalizeAddress :: "string option \<Rightarrow> string" where
  "normalizeAddress address = (case address of None \<Rightarrow> [] | Some a \<Rightarrow> toLowerCase a)"

text \<open>\<open>BigInt(x || "0")\<close> and \<open>sharesPerValidator[validator] || 0n\<close>.\<close>

definition or_zero :: "int option \<Rightarrow> int" where
  "or_zero x = (case x of None \<Rightarrow> 0 | Some n \<Rightarrow> n)"

text \<open>
  One round of the loop over \<open>relevantAddEvents\<close>: the event's \<open>new_shares\<close> are taken
  off the validator's count, and a negative count is set to zero at once.
\<close>

definition reverse_add :: "event_body \<Rightarrow> (string \<rightharpoonup> int) \<Rightarrow> (string \<rightharpoonup> int)" where
  "reverse_add ev sharesPerValidator =
     (let v = normalizeAddress (escrow ev);
          eventShares = or_zero (new_shares ev);
          reversed = or_zero (sharesPerValidator v) - eventShares
      in sharesPerValidator(v \<mapsto> (if reversed < 0 then 0 else reversed)))"

text \<open>One round of the loop over \<open>relevantDebondEvents\<close>.\<close>

definition reverse_debond :: "event_body \<Rightarrow> (string \<rightharpoonup> int) \<Rightarrow> (string \<rightharpoonup> int)" where
  "reverse_debond ev sharesPerValidator =
     (let v = normalizeAddress (escrow ev);
          eventShares = or_zero (debonding_shares ev)
      in sharesPerValidator(v \<mapsto> or_zero (sharesPerValidator v) + eventShares))"

text \<open>
  \<open>sharesPerValidator\<close> of \<open>fetchStakingRewardsTest\<close>: a copy of the current counts, then
  the loop over the Add events, then the loop over the Debond events.
\<close>

definition sharesPerValidator ::
  "(string \<rightharpoonup> int) \<Rightarrow> event_body list \<Rightarrow> event_body list \<Rightarrow> (string \<rightharpoonup> int)"
where
  "sharesPerValidator currentSharesPerValidator relevantAddEvents relevantDebondEvents =
     fold reverse_debond relevantDebondEvents
       (fold reverse_add relevantAddEvents currentSharesPerValidator)"

text \<open>
  \<open>initialShares\<close> of the single-validator script (\<open>main\<close> of the monthly test): the
  current count, less every \<open>new_shares\<close>, plus every \<open>debonding_shares\<close>; no clamp.
\<close>

definition initialShares :: "int option \<Rightarrow> event_body list \<Rightarrow> event_body list \<Rightarrow> int" where
  "initialShares currentShares relevantAddEvents relevantDebondEvents =
     fold (\<lambda>ev s. s + or_zero (debonding_shares ev)) relevantDebondEvents
       (fold (\<lambda>ev s. s - or_zero (new_shares ev)) relevantAddEvents (or_zero currentShares))"

text \<open>
  The sum of a share field over the events of one validator, as the claim about the
  reconstruction states it.
\<close>

definition shares_sum :: "(event_body \<Rightarrow> int option) \<Rightarrow> string \<Rightarrow> event_body list \<Rightarrow> int" where
  "shares_sum field v events =
     sum_list (map (\<lambda>ev. or_zero (field ev)) (filter (\<lambda>ev. normalizeAddress (escrow ev) = v) events))"

section \<open>Rewards accrual engine\<close>

datatype event_type = Add | Debond

text \<open>An entry of \<open>eventsByEpoch\<close>: \<open>{type, validator, shares, amount}\<close>.\<close>

record staking_event =
  ev_type :: event_type
  ev_validator :: string
  ev_shares :: int
  ev_amount :: int

text \<open>An entry of \<open>validatorState\<close>.\<close>

record accrual_state =
  shares :: int
  prevTotalValue :: int
  periodDelegationValue :: int
  periodUndelegationValue :: int

text \<open>
  A row of \<open>results\<close>. The fields \<open>dbg_...\<close> are the source's debug values
  \<open>_prevTotalValue\<close>, \<open>_totalValue\<close>, \<open>_periodDelegationValue\<close> and
  \<open>_periodUndelegationValue\<close>; \<open>row_shares\<close> is the source's \<open>shares\<close>.
\<close>

record reward_row =
  start_timestamp :: string
  end_timestamp :: string
  start_epoch :: int
  end_epoch :: int
  validator :: string
  row_shares :: string
  share_price :: string
  delegation_value :: string
  rewards :: string
  dbg_prevTotalValue :: int
  dbg_totalValue :: int
  dbg_periodDelegationValue :: int
  dbg_periodUndelegationValue :: int

text \<open>
  \<open>validatorHistories[v] || []\<close>, \<open>eventsByEpoch[e] || []\<close> and, for a timestamp
  string, \<open>epochTimestamps[startEpoch] || ""\<close>.
\<close>

definition or_empty :: "'a list option \<Rightarrow> 'a list" where
  "or_empty x = (case x of None \<Rightarrow> [] | Some xs \<Rightarrow> xs)"

text \<open>
  The body of \<open>for (const ev of events)\<close> at epoch \<open>e\<close>: an event of a validator without
  state is passed over; an Add raises the share count, a Debond lowers it and floors it at
  zero; both add the event's shares, priced at the snapshot located at \<open>e\<close>, to the
  period's accumulator.
\<close>

definition apply_event ::
  "(string \<rightharpoonup> history_entry list) \<Rightarrow> int \<Rightarrow> staking_event
     \<Rightarrow> (string \<rightharpoonup> accrual_state) \<Rightarrow> error + (string \<rightharpoonup> accrual_state)"
where
  "apply_event validatorHistories e ev validatorState =
     (case validatorState (ev_validator ev) of
        None \<Rightarrow> Inr validatorState
      | Some state \<Rightarrow>
          (case findHistoryEntryForEpoch (or_empty (validatorHistories (ev_validator ev))) e of
             Inl err \<Rightarrow> Inl err
           | Inr historyEntry \<Rightarrow>
               (case ev_type ev of
                  Add \<Rightarrow>
                    Inr (validatorState(ev_validator ev \<mapsto> state
                      \<lparr>shares := shares state + ev_shares ev,
                       periodDelegationValue := periodDelegationValue state
                          + calculateTotalValue (ev_shares ev) historyEntry\<rparr>))
                | Debond \<Rightarrow>
                    Inr (validatorState(ev_validator ev \<mapsto> state
                      \<lparr>shares := (if shares state - ev_shares ev < 0 then 0
                                  else shares state - ev_shares ev),
                       periodUndelegationValue := periodUndelegationValue state
                          + calculateTotalValue (ev_shares ev) historyEntry\<rparr>)))))"

fun apply_events ::
  "(string \<rightharpoonup> history_entry list) \<Rightarrow> int \<Rightarrow> staking_event list
     \<Rightarrow> (string \<rightharpoonup> accrual_state) \<Rightarrow> error + (string \<rightharpoonup> accrual_state)"
where
  "apply_events validatorHistories e [] validatorState = Inr validatorState"
| "apply_events validatorHistories e (ev # events) validatorState =
     (case apply_event validatorHistories e ev validatorState of
        Inl err \<Rightarrow> Inl err
      | Inr validatorState' \<Rightarrow> apply_events validatorHistories e events validatorState')"

text \<open>\<open>for (let e = lastProcessedEpoch + 1; e <= epoch; e++)\<close>, entered at \<open>e\<close>.\<close>

function apply_epochs ::
  "(int \<rightharpoonup> staking_event list) \<Rightarrow> (string \<rightharpoonup> history_entry list) \<Rightarrow> int \<Rightarrow> int
     \<Rightarrow> (string \<rightharpoonup> accrual_state) \<Rightarrow> error + (string \<rightharpoonup> accrual_state)"
where
  "apply_epochs eventsByEpoch validatorHistories e sampleEpoch validatorState =
     (if e \<le> sampleEpoch then
        (case apply_events validatorHistories e (or_empty (eventsByEpoch e)) validatorState of
           Inl err \<Rightarrow> Inl err
         | Inr validatorState' \<Rightarrow>
             apply_epochs eventsByEpoch validatorHistories (e + 1) sampleEpoch validatorState')
      else Inr validatorState)"
  by pat_completeness auto
termination
  by (relation "measure (\<lambda>(eventsByEpoch, validatorHistories, e, sampleEpoch, validatorState).
        nat (sampleEpoch - e + 1))") auto

text \<open>
  The body of \<open>for (const validator of validators)\<close> at a sample epoch with timestamp
  \<open>timestamp\<close>. Reading \<open>state.shares\<close> of a validator without state throws a TypeError.
\<close>

definition emit_validator ::
  "int \<Rightarrow> (int \<Rightarrow> string option) \<Rightarrow> (string \<rightharpoonup> history_entry list) \<Rightarrow> int \<Rightarrow> string
     \<Rightarrow> string \<Rightarrow> reward_row list \<times> (string \<rightharpoonup> accrual_state)
     \<Rightarrow> error + reward_row list \<times> (string \<rightharpoonup> accrual_state)"
where
  "emit_validator startEpoch epochTimestamps validatorHistories sampleEpoch timestamp v acc =
     (case acc of (results, validatorState) \<Rightarrow>
      (case validatorState v of
         None \<Rightarrow> Inl TypeError
       | Some state \<Rightarrow>
           if shares state = 0 \<and> prevTotalValue state = 0 then Inr (results, validatorState)
           else
             (case findHistoryEntryForEpoch (or_empty (validatorHistories v)) sampleEpoch of
                Inl err \<Rightarrow> Inl err
              | Inr None \<Rightarrow> Inr (results, validatorState)
              | Inr (Some historyEntry) \<Rightarrow>
                  (let shareValueScaled = calculateShareValue (Some historyEntry);
                       totalValue = calculateTotalValue (shares state) (Some historyEntry);
                       earned = totalValue - prevTotalValue state
                                - periodDelegationValue state + periodUndelegationValue state
                   in Inr (results @
                        [\<lparr>start_timestamp = or_empty (epochTimestamps startEpoch),
                          end_timestamp = timestamp,
                          start_epoch = startEpoch,
                          end_epoch = sampleEpoch,
                          validator = v,
                          row_shares = bigint_toString (shares state),
                          share_price = toRose shareValueScaled 18,
                          delegation_value = toRose totalValue 0,
                          rewards = toRose earned 0,
                          dbg_prevTotalValue = prevTotalValue state,
                          dbg_totalValue = totalValue,
                          dbg_periodDelegationValue = periodDelegationValue state,
                          dbg_periodUndelegationValue = periodUndelegationValue state\<rparr>],
                        validatorState(v \<mapsto> state
                          \<lparr>prevTotalValue := totalValue,
                           periodDelegationValue := 0,
                           periodUndelegationValue := 0\<rparr>))))))"

fun emit_rows ::
  "int \<Rightarrow> (int \<Rightarrow> string option) \<Rightarrow> (string \<rightharpoonup> history_entry list) \<Rightarrow> int \<Rightarrow> string
     \<Rightarrow> string list \<Rightarrow> reward_row list \<times> (string \<rightharpoonup> accrual_state)
     \<Rightarrow> error + reward_row list \<times> (string \<rightharpoonup> accrual_state)"
where
  "emit_rows startEpoch epochTimestamps validatorHistories sampleEpoch timestamp [] acc = Inr acc"
| "emit_rows startEpoch epochTimestamps validatorHistories sampleEpoch timestamp (v # vs) acc =
     (case emit_validator startEpoch epochTimestamps validatorHistories sampleEpoch timestamp v acc of
        Inl err \<Rightarrow> Inl err
      | Inr acc' \<Rightarrow>
          emit_rows startEpoch epochTimestamps validatorHistories sampleEpoch timestamp vs acc')"

text \<open>
  \<open>for (const epoch of epochsToProcess)\<close> over the remaining samples, with the rows
  pushed so far, \<open>lastProcessedEpoch\<close> and \<open>validatorState\<close>. A sample whose timestamp is
  falsy (absent or empty) is passed over whole.
\<close>

fun process_epochs ::
  "int \<Rightarrow> (int \<Rightarrow> string option) \<Rightarrow> (int \<rightharpoonup> staking_event list) \<Rightarrow> string list
     \<Rightarrow> (string \<rightharpoonup> history_entry list) \<Rightarrow> int list
     \<Rightarrow> reward_row list \<times> int \<times> (string \<rightharpoonup> accrual_state)
     \<Rightarrow> error + reward_row list \<times> int \<times> (string \<rightharpoonup> accrual_state)"
where
  "process_epochs startEpoch epochTimestamps eventsByEpoch validators validatorHistories [] acc
     = Inr acc"
| "process_epochs startEpoch epochTimestamps eventsByEpoch validators validatorHistories
     (sampleEpoch # samples) (results, lastProcessedEpoch, validatorState) =
     (if or_empty (epochTimestamps sampleEpoch) = [] then
        process_epochs startEpoch epochTimestamps eventsByEpoch validators validatorHistories
          samples (results, lastProcessedEpoch, validatorState)
      else
        (case apply_epochs eventsByEpoch validatorHistories (lastProcessedEpoch + 1) sampleEpoch
                validatorState of
           Inl err \<Rightarrow> Inl err
         | Inr validatorState' \<Rightarrow>
             (case emit_rows startEpoch epochTimestamps validatorHistories sampleEpoch
                     (or_empty (epochTimestamps sampleEpoch)) validators
                     (results, validatorState') of
                Inl err \<Rightarrow> Inl err
              | Inr (results', validatorState'') \<Rightarrow>
                  process_epochs startEpoch epochTimestamps eventsByEpoch validators
                    validatorHistories samples (results', sampleEpoch, validatorState''))))"

text \<open>
  The state a run starts from (\<open>validatorState[validator] = {...}\<close>): the reconstructed
  share count, its value at the snapshot located for \<open>startEpoch\<close>, and empty period
  accumulators.
\<close>

definition initial_state :: "int \<Rightarrow> history_entry option \<Rightarrow> accrual_state" where
  "initial_state initialShares' initialHistoryEntry =
     \<lparr>shares = initialShares',
      prevTotalValue = calculateTotalValue initialShares' initialHistoryEntry,
      periodDelegationValue = 0,
      periodUndelegationValue = 0\<rparr>"

text \<open>
  The rows \<open>fetchStakingRewardsTest\<close> returns, from the data it has fetched: the samples
  of the granularity, processed from \<open>lastProcessedEpoch = startEpoch\<close> with no rows.
\<close>

definition reward_rows ::
  "string \<Rightarrow> int \<Rightarrow> int \<Rightarrow> (int \<Rightarrow> string option) \<Rightarrow> (int \<rightharpoonup> staking_event list) \<Rightarrow> string list
     \<Rightarrow> (string \<rightharpoonup> history_entry list) \<Rightarrow> (string \<rightharpoonup> accrual_state)
     \<Rightarrow> error + reward_row list"
where
  "reward_rows granularity startEpoch endEpoch epochTimestamps eventsByEpoch validators
     validatorHistories validatorState =
     (case process_epochs startEpoch epochTimestamps eventsByEpoch validators validatorHistories
             (epochsToProcess granularity startEpoch endEpoch) ([], startEpoch, validatorState) of
        Inl err \<Rightarrow> Inl err
      | Inr (results, lastProcessedEpoch, validatorState') \<Rightarrow> Inr results)"

section \<open>The engine's steps without the error channel\<close>

text \<open>
  The entry the locator finds, as a plain value: the locator never throws
  (\<open>findHistoryEntryForEpoch_no_error\<close>).
\<close>

definition located :: "history_entry list \<Rightarrow> int \<Rightarrow> history_entry option" where
  "located history targetEpoch =
     (case findHistoryEntryForEpoch history targetEpoch of Inl err \<Rightarrow> None | Inr r \<Rightarrow> r)"

text \<open>
  The engine's steps as plain state transformers, used in the proofs: the update of one
  state by one event, the \<open>validatorState\<close> after one event, and after the events of
  one epoch.
\<close>

definition event_update ::
  "(string \<rightharpoonup> history_entry list) \<Rightarrow> int \<Rightarrow> staking_event \<Rightarrow> accrual_state \<Rightarrow> accrual_state"
where
  "event_update validatorHistories e ev state =
     (let historyEntry = located (or_empty (validatorHistories (ev_validator ev))) e in
      case ev_type ev of
        Add \<Rightarrow> state
          \<lparr>shares := shares state + ev_shares ev,
           periodDelegationValue := periodDelegationValue state
              + calculateTotalValue (ev_shares ev) historyEntry\<rparr>
      | Debond \<Rightarrow> state
          \<lparr>shares := max 0 (shares state - ev_shares ev),
           periodUndelegationValue := periodUndelegationValue state
              + calculateTotalValue (ev_shares ev) historyEntry\<rparr>)"

definition event_step ::
  "(string \<rightharpoonup> history_entry list) \<Rightarrow> int \<Rightarrow> staking_event
     \<Rightarrow> (string \<rightharpoonup> accrual_state) \<Rightarrow> (string \<rightharpoonup> accrual_state)"
where
  "event_step validatorHistories e ev validatorState =
     (case validatorState (ev_validator ev) of
        None \<Rightarrow> validatorState
      | Some state \<Rightarrow>
          validatorState(ev_validator ev \<mapsto> event_update validatorHistories e ev state))"

definition epoch_step ::
  "(int \<rightharpoonup> staking_event list) \<Rightarrow> (string \<rightharpoonup> history_entry list) \<Rightarrow> int
     \<Rightarrow> (string \<rightharpoonup> accrual_state) \<Rightarrow> (string \<rightharpoonup> accrual_state)"
where
  "epoch_step eventsByEpoch validatorHistories e validatorState =
     fold (event_step validatorHistories e) (or_empty (eventsByEpoch e)) validatorState"

text \<open>
  The row pushed for a validator at a sample, the state after pushing it, and the body
  of the loop over the validators as a plain transformer (defined for a validator with
  state).
\<close>

definition row_of ::
  "int \<Rightarrow> (int \<Rightarrow> string option) \<Rightarrow> int \<Rightarrow> string \<Rightarrow> string \<Rightarrow> accrual_state \<Rightarrow> history_entry
     \<Rightarrow> reward_row"
where
  "row_of startEpoch epochTimestamps sampleEpoch timestamp v state historyEntry =
     \<lparr>start_timestamp = or_empty (epochTimestamps startEpoch),
      end_timestamp = timestamp,
      start_epoch = startEpoch,
      end_epoch = sampleEpoch,
      validator = v,
      row_shares = bigint_toString (shares state),
      share_price = toRose (calculateShareValue (Some historyEntry)) 18,
      delegation_value = toRose (calculateTotalValue (shares state) (Some historyEntry)) 0,
      rewards = toRose (calculateTotalValue (shares state) (Some historyEntry)
                  - prevTotalValue state - periodDelegationValue state
                  + periodUndelegationValue state) 0,
      dbg_prevTotalValue = prevTotalValue state,
      dbg_totalValue = calculateTotalValue (shares state) (Some historyEntry),
      dbg_periodDelegationValue = periodDelegationValue state,
      dbg_periodUndelegationValue = periodUndelegationValue state\<rparr>"

definition settle :: "accrual_state \<Rightarrow> history_entry \<Rightarrow> accrual_state" where
  "settle state historyEntry =
     state\<lparr>prevTotalValue := calculateTotalValue (shares state) (Some historyEntry),
           periodDelegationValue := 0,
           periodUndelegationValue := 0\<rparr>"

definition emit_step ::
  "int \<Rightarrow> (int \<Rightarrow> string option) \<Rightarrow> (string \<rightharpoonup> history_entry list) \<Rightarrow> int \<Rightarrow> string
     \<Rightarrow> string \<Rightarrow> reward_row list \<times> (string \<rightharpoonup> accrual_state)
     \<Rightarrow> reward_row list \<times> (string \<rightharpoonup> accrual_state)"
where
  "emit_step startEpoch epochTimestamps validatorHistories sampleEpoch timestamp v acc =
     (case acc of (results, validatorState) \<Rightarrow>
      (case validatorState v of
         None \<Rightarrow> (results, validatorState)
       | Some state \<Rightarrow>
           if shares state = 0 \<and> prevTotalValue state = 0 then (results, validatorState)
           else
             (case located (or_empty (validatorHistories v)) sampleEpoch of
                None \<Rightarrow> (results, validatorState)
              | Some historyEntry \<Rightarrow>
                  (results @ [row_of startEpoch epochTimestamps sampleEpoch timestamp v state
                                historyEntry],
                   validatorState(v \<mapsto> settle state historyEntry)))))"

text \<open>
  One round of the loop over the samples as a plain transformer (for validators that all
  have state).
\<close>

definition sample_pass ::
  "int \<Rightarrow> (int \<Rightarrow> string option) \<Rightarrow> (int \<rightharpoonup> staking_event list) \<Rightarrow> string list
     \<Rightarrow> (string \<rightharpoonup> history_entry list) \<Rightarrow> int
     \<Rightarrow> reward_row list \<times> int \<times> (string \<rightharpoonup> accrual_state)
     \<Rightarrow> reward_row list \<times> int \<times> (string \<rightharpoonup> accrual_state)"
where
  "sample_pass startEpoch epochTimestamps eventsByEpoch validators validatorHistories sampleEpoch acc =
     (case acc of (results, lastProcessedEpoch, validatorState) \<Rightarrow>
        if or_empty (epochTimestamps sampleEpoch) = [] then acc
        else
          (case fold (emit_step startEpoch epochTimestamps validatorHistories sampleEpoch
                        (or_empty (epochTimestamps sampleEpoch)))
                  validators
                  (results, fold (epoch_step eventsByEpoch validatorHistories)
                              [lastProcessedEpoch + 1..sampleEpoch] validatorState) of
             (results', validatorState') \<Rightarrow> (results', sampleEpoch, validatorState')))"

text \<open>
  The rows of one validator, and the exact integer sum of their \<open>rewards\<close> values, each
  read back from its rendered string.
\<close>

definition rows_of :: "string \<Rightarrow> reward_row list \<Rightarrow> reward_row list" where
  "rows_of v results = filter (\<lambda>r. validator r = v) results"

definition reward_sum :: "string \<Rightarrow> reward_row list \<Rightarrow> int" where
  "reward_sum v results =
     sum_list (map (\<lambda>r. parse_scaled ROSE_DECIMALS (rewards r)) (rows_of v results))"

text \<open>
  Used in the proof of the reconciliation: the value a state accounts for (the last
  emitted value and the principal moved since), and the relation of two state maps that
  track the same share counts.
\<close>

definition ledger :: "accrual_state \<Rightarrow> int" where
  "ledger state = prevTotalValue state + periodDelegationValue state - periodUndelegationValue state"

definition ledger_of :: "(string \<rightharpoonup> accrual_state) \<Rightarrow> string \<Rightarrow> int" where
  "ledger_of validatorState v = (case validatorState v of None \<Rightarrow> 0 | Some state \<Rightarrow> ledger state)"

definition same_shares :: "(string \<rightharpoonup> accrual_state) \<Rightarrow> (string \<rightharpoonup> accrual_state) \<Rightarrow> bool" where
  "same_shares a b = (\<forall>v. map_option shares (a v) = map_option shares (b v))"

text \<open>The sum of the rewards a run emits for one validator.\<close>

definition reward_total ::
  "string \<Rightarrow> int \<Rightarrow> int \<Rightarrow> (int \<Rightarrow> string option) \<Rightarrow> (int \<rightharpoonup> staking_event list) \<Rightarrow> string list
     \<Rightarrow> (string \<rightharpoonup> history_entry list) \<Rightarrow> (string \<rightharpoonup> accrual_state) \<Rightarrow> string
     \<Rightarrow> error + int"
where
  "reward_total granularity startEpoch endEpoch epochTimestamps eventsByEpoch validators
     validatorHistories validatorState v =
     (case reward_rows granularity startEpoch endEpoch epochTimestamps eventsByEpoch validators
             validatorHistories validatorState of
        Inl err \<Rightarrow> Inl err
      | Inr results \<Rightarrow> Inr (reward_sum v results))"

section \<open>Paginated fetch\<close>

text \<open>
  The body of a page response: \<open>response.data[itemsKey]\<close>, \<open>response.data.total_count\<close>
  and \<open>response.data.is_total_count_clipped\<close>; \<open>None\<close> is an absent (falsy) field.
\<close>

record 'a page_response =
  page_items :: "'a list option"
  total_count :: "int option"
  is_total_count_clipped :: bool

text \<open>
  The loop \<open>while (true)\<close> of \<open>paginatedFetch\<close> in \<open>utils.js\<close>. \<open>get n offset\<close> is the
  outcome of the \<open>n\<close>-th call of \<open>axios.get\<close>, made with \<open>offset\<close>: a response, or the error
  the call throws. The loop need not end, so the model is a partial function: \<open>None\<close> is a
  run that never returns.
\<close>

partial_function (option) paginated_loop ::
  "(nat \<Rightarrow> nat \<Rightarrow> error + 'a page_response) \<Rightarrow> nat \<Rightarrow> nat \<Rightarrow> nat \<Rightarrow> 'a list \<Rightarrow> bool
     \<Rightarrow> (error + 'a list \<times> bool) option"
where
  "paginated_loop get limit n offset items wasClipped =
     (case get n offset of
        Inl err \<Rightarrow> Some (Inl err)
      | Inr response \<Rightarrow>
          (let pageItems = or_empty (page_items response);
               items' = items @ pageItems;
               wasClipped' = (wasClipped \<or> is_total_count_clipped response)
           in if length pageItems < limit
                 \<or> or_zero (total_count response) \<le> int (offset + length pageItems)
              then Some (Inr (items', wasClipped'))
              else paginated_loop get limit (n + 1) (offset + length pageItems) items' wasClipped'))"

definition paginatedFetch ::
  "(nat \<Rightarrow> nat \<Rightarrow> error + 'a page_response) \<Rightarrow> nat \<Rightarrow> (error + 'a list \<times> bool) option"
where
  "paginatedFetch get limit = paginated_loop get limit 0 0 [] False"

text \<open>
  The copy of \<open>paginatedFetch\<close> in the test script of the actual implementation: it stops
  on a short page only and returns the items alone.
\<close>

partial_function (option) paginated_loop_test ::
  "(nat \<Rightarrow> nat \<Rightarrow> error + 'a page_response) \<Rightarrow> nat \<Rightarrow> nat \<Rightarrow> nat \<Rightarrow> 'a list
     \<Rightarrow> (error + 'a list) option"
where
  "paginated_loop_test get limit n offset items =
     (case get n offset of
        Inl err \<Rightarrow> Some (Inl err)
      | Inr response \<Rightarrow>
          (let pageItems = or_empty (page_items response);
               items' = items @ pageItems
           in if length pageItems < limit then Some (Inr items')
              else paginated_loop_test get limit (n + 1) (offset + length pageItems) items'))"

definition paginatedFetch_test ::
  "(nat \<Rightarrow> nat \<Rightarrow> error + 'a page_response) \<Rightarrow> nat \<Rightarrow> (error + 'a list) option"
where
  "paginatedFetch_test get limit = paginated_loop_test get limit 0 0 []"

text \<open>
  The requests of a run, as the claim speaks of them: the offset of the \<open>i\<close>-th request
  (the items of the pages before it), its page of items, its reported total and its
  clipped flag.
\<close>

primrec offset_at :: "(nat \<Rightarrow> nat \<Rightarrow> error + 'a page_response) \<Rightarrow> nat \<Rightarrow> nat" where
  "offset_at get 0 = 0"
| "offset_at get (Suc i) =
     offset_at get i
     + (case get i (offset_at get i) of Inl err \<Rightarrow> 0
        | Inr response \<Rightarrow> length (or_empty (page_items response)))"

definition page_at :: "(nat \<Rightarrow> nat \<Rightarrow> error + 'a page_response) \<Rightarrow> nat \<Rightarrow> 'a list" where
  "page_at get i =
     (case get i (offset_at get i) of Inl err \<Rightarrow> [] | Inr response \<Rightarrow> or_empty (page_items response))"

definition total_at :: "(nat \<Rightarrow> nat \<Rightarrow> error + 'a page_response) \<Rightarrow> nat \<Rightarrow> int" where
  "total_at get i =
     (case get i (offset_at get i) of Inl err \<Rightarrow> 0 | Inr response \<Rightarrow> or_zero (total_count response))"

definition clipped_at :: "(nat \<Rightarrow> nat \<Rightarrow> error + 'a page_response) \<Rightarrow> nat \<Rightarrow> bool" where
  "clipped_at get i =
     (case get i (offset_at get i) of Inl err \<Rightarrow> False | Inr response \<Rightarrow> is_total_count_clipped response)"

definition stop_at :: "(nat \<Rightarrow> nat \<Rightarrow> error + 'a page_response) \<Rightarrow> nat \<Rightarrow> nat \<Rightarrow> bool" where
  "stop_at get limit i =
     (length (page_at get i) < limit
      \<or> total_at get i \<le> int (offset_at get i + length (page_at get i)))"

text \<open>
  A server stub that pages through a fixed list of rows by \<open>limit\<close> and \<open>offset\<close>, with
  a fixed reported total and clipped flag.
\<close>

definition list_server :: "'a list \<Rightarrow> int option \<Rightarrow> bool \<Rightarrow> nat \<Rightarrow> nat \<Rightarrow> nat \<Rightarrow> error + 'a page_response" where
  "list_server rows reported flagged limit n offset =
     Inr \<lparr>page_items = Some (take limit (drop offset rows)), total_count = reported,
          is_total_count_clipped = flagged\<rparr>"

section \<open>The validators and the initial state of a run\<close>

text \<open>
  The validators of a run. \<open>validatorsWithActivity\<close> is a \<open>Set\<close>, modelled by the list of
  its members in insertion order: the keys of \<open>sharesPerValidator\<close> with a positive count
  (\<open>sharesEntries\<close> are its entries in enumeration order), then the keys of
  \<open>currentSharesPerValidator\<close>; \<open>filter(Boolean)\<close> drops the empty name.
\<close>

definition set_add :: "'a \<Rightarrow> 'a list \<Rightarrow> 'a list" where
  "set_add x members = (if x \<in> set members then members else members @ [x])"

definition active_validators :: "(string \<times> int) list \<Rightarrow> string list \<Rightarrow> string list" where
  "active_validators sharesEntries currentKeys =
     filter (\<lambda>v. v \<noteq> [])
       (fold set_add currentKeys
          (fold (\<lambda>entry members. if 0 < snd entry then set_add (fst entry) members else members)
             sharesEntries []))"

text \<open>
  \<open>validatorState\<close> as the loop over \<open>validators\<close> fills it; \<open>initialHistoryEntry v\<close> is
  what \<open>fetchHistoryAtEpoch(v, startEpoch)\<close> returned.
\<close>

definition initial_states ::
  "string list \<Rightarrow> (string \<rightharpoonup> int) \<Rightarrow> (string \<Rightarrow> history_entry option) \<Rightarrow> (string \<rightharpoonup> accrual_state)"
where
  "initial_states validators sharesPerValidator' initialHistoryEntry =
     fold (\<lambda>v validatorState. validatorState(v \<mapsto>
             initial_state (or_zero (sharesPerValidator' v)) (initialHistoryEntry v)))
       validators Map.empty"

section \<open>Properties of the snapshot locator\<close>

declare bsearch_loop.simps [simp del]
declare nat_digits.simps [simp del]
declare apply_epochs.simps [simp del]

lemma bsearch_loop_done:
  "\<not> low \<le> high \<Longrightarrow> bsearch_loop history targetEpoch low high result = Inr result"
  by (subst bsearch_loop.simps) simp

lemma sorted_epoch_nth:
  assumes "sorted (map epoch history)" and "i \<le> j" and "j < length history"
  shows "epoch (history ! i) \<le> epoch (history ! j)"
proof -
  have "map epoch history ! i \<le> map epoch history ! j"
    using assms by (simp add: sorted_iff_nth_mono)
  then show ?thesis using assms by simp
qed

lemma bsearch_loop_invariant:
  assumes "sorted (map epoch history)"
    and "0 \<le> low" and "high < int (length history)" and "low \<le> high + 1"
    and "\<forall>i. 0 \<le> i \<and> i < low \<longrightarrow> epoch (history ! nat i) \<le> targetEpoch"
    and "\<forall>i. high < i \<and> i < int (length history) \<longrightarrow> targetEpoch < epoch (history ! nat i)"
    and "result = (if low = 0 then None else Some (history ! nat (low - 1)))"
  shows "\<exists>k. 0 \<le> k \<and> k \<le> int (length history)
           \<and> (\<forall>i. 0 \<le> i \<and> i < k \<longrightarrow> epoch (history ! nat i) \<le> targetEpoch)
           \<and> (\<forall>i. k \<le> i \<and> i < int (length history) \<longrightarrow> targetEpoch < epoch (history ! nat i))
           \<and> bsearch_loop history targetEpoch low high result
               = Inr (if k = 0 then None else Some (history ! nat (k - 1)))"
  using assms
proof (induction history targetEpoch low high result rule: bsearch_loop.induct)
  case (1 history targetEpoch low high result)
  note mono = sorted_epoch_nth [OF "1.prems"(1)]
  show ?case
  proof (cases "low \<le> high")
    case False
    with "1.prems" have "low = high + 1" by simp
    with False "1.prems" show ?thesis
      by (intro exI [of _ low]) (simp add: bsearch_loop_done)
  next
    case True
    define mid where "mid = (low + high) div 2"
    have mid: "low \<le> mid" "mid \<le> high" "0 \<le> mid" "mid < int (length history)"
      using True "1.prems"(2,3) by (auto simp: mid_def)
    show ?thesis
    proof (cases "epoch (history ! nat mid) \<le> targetEpoch")
      case le: True
      have below: "\<forall>i. 0 \<le> i \<and> i < mid + 1 \<longrightarrow> epoch (history ! nat i) \<le> targetEpoch"
      proof (intro allI impI)
        fix i assume i: "0 \<le> i \<and> i < mid + 1"
        then have "nat i \<le> nat mid" "nat mid < length history"
          using mid by auto
        from mono [OF this] have "epoch (history ! nat i) \<le> epoch (history ! nat mid)" .
        with le show "epoch (history ! nat i) \<le> targetEpoch" by simp
      qed
      have "\<exists>k. 0 \<le> k \<and> k \<le> int (length history)
           \<and> (\<forall>i. 0 \<le> i \<and> i < k \<longrightarrow> epoch (history ! nat i) \<le> targetEpoch)
           \<and> (\<forall>i. k \<le> i \<and> i < int (length history) \<longrightarrow> targetEpoch < epoch (history ! nat i))
           \<and> bsearch_loop history targetEpoch (mid + 1) high (Some (history ! nat mid))
               = Inr (if k = 0 then None else Some (history ! nat (k - 1)))"
        using True mid le below "1.prems"
        by (intro "1.IH"(1) [of mid]) (auto simp: mid_def)
      moreover have "bsearch_loop history targetEpoch low high result
          = bsearch_loop history targetEpoch (mid + 1) high (Some (history ! nat mid))"
        using True mid le
        by (subst bsearch_loop.simps) (simp add: mid_def Let_def)
      ultimately show ?thesis by simp
    next
      case gt: False
      have above: "\<forall>i. mid - 1 < i \<and> i < int (length history) \<longrightarrow> targetEpoch < epoch (history ! nat i)"
      proof (intro allI impI)
        fix i assume i: "mid - 1 < i \<and> i < int (length history)"
        then have "nat mid \<le> nat i" "nat i < length history"
          using mid by auto
        from mono [OF this] have "epoch (history ! nat mid) \<le> epoch (history ! nat i)" .
        with gt show "targetEpoch < epoch (history ! nat i)" by simp
      qed
      have "\<exists>k. 0 \<le> k \<and> k \<le> int (length history)
           \<and> (\<forall>i. 0 \<le> i \<and> i < k \<longrightarrow> epoch (history ! nat i) \<le> targetEpoch)
           \<and> (\<forall>i. k \<le> i \<and> i < int (length history) \<longrightarrow> targetEpoch < epoch (history ! nat i))
           \<and> bsearch_loop history targetEpoch low (mid - 1) result
               = Inr (if k = 0 then None else Some (history ! nat (k - 1)))"
        using True mid gt above "1.prems"
        by (intro "1.IH"(2) [of mid]) (auto simp: mid_def)
      moreover have "bsearch_loop history targetEpoch low high result
          = bsearch_loop history targetEpoch low (mid - 1) result"
        using True mid gt
        by (subst bsearch_loop.simps) (simp add: mid_def Let_def)
      ultimately show ?thesis by simp
    qed
  qed
qed

lemma bsearch_loop_no_error:
  "0 \<le> low \<Longrightarrow> high < int (length history)
     \<Longrightarrow> \<exists>r. bsearch_loop history targetEpoch low high result = Inr r"
proof (induction history targetEpoch low high result rule: bsearch_loop.induct)
  case (1 history targetEpoch low high result)
  show ?case
  proof (cases "low \<le> high")
    case False
    then show ?thesis by (simp add: bsearch_loop_done)
  next
    case True
    define mid where "mid = (low + high) div 2"
    have mid: "low \<le> mid" "mid \<le> high" "0 \<le> mid" "mid < int (length history)"
      using True "1.prems" by (auto simp: mid_def)
    show ?thesis
    proof (cases "epoch (history ! nat mid) \<le> targetEpoch")
      case le: True
      have "\<exists>r. bsearch_loop history targetEpoch (mid + 1) high (Some (history ! nat mid)) = Inr r"
        using True mid le "1.prems" by (intro "1.IH"(1) [of mid]) (auto simp: mid_def)
      moreover have "bsearch_loop history targetEpoch low high result
          = bsearch_loop history targetEpoch (mid + 1) high (Some (history ! nat mid))"
        using True mid le
        by (subst bsearch_loop.simps) (simp add: mid_def Let_def)
      ultimately show ?thesis by simp
    next
      case gt: False
      have "\<exists>r. bsearch_loop history targetEpoch low (mid - 1) result = Inr r"
        using True mid gt "1.prems" by (intro "1.IH"(2) [of mid]) (auto simp: mid_def)
      moreover have "bsearch_loop history targetEpoch low high result
          = bsearch_loop history targetEpoch low (mid - 1) result"
        using True mid gt
        by (subst bsearch_loop.simps) (simp add: mid_def Let_def)
      ultimately show ?thesis by simp
    qed
  qed
qed

lemma findHistoryEntryForEpoch_no_error:
  "\<exists>r. findHistoryEntryForEpoch history targetEpoch = Inr r"
  using bsearch_loop_no_error [of 0 "int (length history) - 1" history targetEpoch None]
  by (simp add: findHistoryEntryForEpoch_def)

lemma findHistoryEntryForEpoch_split_point:
  assumes "sorted (map epoch history)"
  shows "\<exists>k. k \<le> length history
           \<and> (\<forall>i < k. epoch (history ! i) \<le> targetEpoch)
           \<and> (\<forall>i. k \<le> i \<and> i < length history \<longrightarrow> targetEpoch < epoch (history ! i))
           \<and> findHistoryEntryForEpoch history targetEpoch
               = Inr (if k = 0 then None else Some (history ! (k - 1)))"
proof (cases "history = []")
  case True
  then show ?thesis by (intro exI [of _ 0]) (simp add: findHistoryEntryForEpoch_def)
next
  case False
  have "\<exists>k. 0 \<le> k \<and> k \<le> int (length history)
           \<and> (\<forall>i. 0 \<le> i \<and> i < k \<longrightarrow> epoch (history ! nat i) \<le> targetEpoch)
           \<and> (\<forall>i. k \<le> i \<and> i < int (length history) \<longrightarrow> targetEpoch < epoch (history ! nat i))
           \<and> bsearch_loop history targetEpoch 0 (int (length history) - 1) None
               = Inr (if k = 0 then None else Some (history ! nat (k - 1)))"
    using assms by (intro bsearch_loop_invariant) auto
  then obtain k where k: "0 \<le> k" "k \<le> int (length history)"
      "\<forall>i. 0 \<le> i \<and> i < k \<longrightarrow> epoch (history ! nat i) \<le> targetEpoch"
      "\<forall>i. k \<le> i \<and> i < int (length history) \<longrightarrow> targetEpoch < epoch (history ! nat i)"
      "bsearch_loop history targetEpoch 0 (int (length history) - 1) None
               = Inr (if k = 0 then None else Some (history ! nat (k - 1)))"
    by blast
  have lo: "\<forall>i < nat k. epoch (history ! i) \<le> targetEpoch"
  proof (intro allI impI)
    fix i assume "i < nat k"
    then have "0 \<le> int i \<and> int i < k" by simp
    with k(3) have "epoch (history ! nat (int i)) \<le> targetEpoch" by blast
    then show "epoch (history ! i) \<le> targetEpoch" by simp
  qed
  have hi: "\<forall>i. nat k \<le> i \<and> i < length history \<longrightarrow> targetEpoch < epoch (history ! i)"
  proof (intro allI impI)
    fix i assume "nat k \<le> i \<and> i < length history"
    then have "k \<le> int i \<and> int i < int (length history)" using k(1) by linarith
    with k(4) have "targetEpoch < epoch (history ! nat (int i))" by blast
    then show "targetEpoch < epoch (history ! i)" by simp
  qed
  have "nat (k - 1) = nat k - 1" by simp
  moreover have "nat k \<le> length history" using k(1,2) by linarith
  moreover have "(nat k = 0) = (k = 0)" using k(1) by linarith
  ultimately show ?thesis using k(5) False lo hi
    by (intro exI [of _ "nat k"]) (simp add: findHistoryEntryForEpoch_def)
qed

text \<open>
  C2. For a history sorted ascending by epoch with unique epochs, the locator returns
  the entry with the greatest epoch not above the target epoch, and returns none when the
  history is empty or the target epoch precedes the first entry's epoch.
\<close>

theorem findHistoryEntryForEpoch_greatest_le:
  assumes "sorted_wrt (<) (map epoch history)"
  shows "(history = [] \<or> targetEpoch < epoch (hd history)
            \<longrightarrow> findHistoryEntryForEpoch history targetEpoch = Inr None)
       \<and> (history \<noteq> [] \<and> epoch (hd history) \<le> targetEpoch
            \<longrightarrow> (\<exists>r. findHistoryEntryForEpoch history targetEpoch = Inr (Some r)
                  \<and> r \<in> set history \<and> epoch r \<le> targetEpoch
                  \<and> (\<forall>h \<in> set history. epoch h \<le> targetEpoch \<longrightarrow> h = r \<or> epoch h < epoch r)))"
proof -
  have srt: "sorted (map epoch history)" and dist: "distinct (map epoch history)"
    using assms by (simp_all add: strict_sorted_iff)
  obtain k where k: "k \<le> length history"
      "\<forall>i < k. epoch (history ! i) \<le> targetEpoch"
      "\<forall>i. k \<le> i \<and> i < length history \<longrightarrow> targetEpoch < epoch (history ! i)"
      "findHistoryEntryForEpoch history targetEpoch
         = Inr (if k = 0 then None else Some (history ! (k - 1)))"
    using findHistoryEntryForEpoch_split_point [OF srt, of targetEpoch] by blast
  have none: "findHistoryEntryForEpoch history targetEpoch = Inr None"
    if "history = [] \<or> targetEpoch < epoch (hd history)"
  proof (cases "history = []")
    case True
    then show ?thesis by (simp add: findHistoryEntryForEpoch_def)
  next
    case False
    with that have "targetEpoch < epoch (history ! 0)" by (simp add: hd_conv_nth)
    with k(2) have "k = 0" by (cases k) (auto simp: not_le [symmetric])
    with k(4) show ?thesis by simp
  qed
  have some: "\<exists>r. findHistoryEntryForEpoch history targetEpoch = Inr (Some r)
                  \<and> r \<in> set history \<and> epoch r \<le> targetEpoch
                  \<and> (\<forall>h \<in> set history. epoch h \<le> targetEpoch \<longrightarrow> h = r \<or> epoch h < epoch r)"
    if ne: "history \<noteq> []" and first: "epoch (hd history) \<le> targetEpoch"
  proof -
    have "epoch (history ! 0) \<le> targetEpoch" using ne first by (simp add: hd_conv_nth)
    with k(3) ne have kpos: "0 < k" by (cases k) (auto simp: not_less [symmetric])
    define r where "r = history ! (k - 1)"
    have rin: "r \<in> set history" using kpos k(1) by (simp add: r_def)
    have rle: "epoch r \<le> targetEpoch" using kpos k(2) by (simp add: r_def)
    have great: "h = r \<or> epoch h < epoch r" if h: "h \<in> set history" "epoch h \<le> targetEpoch" for h
    proof -
      from h(1) obtain i where i: "i < length history" "h = history ! i"
        by (auto simp: in_set_conv_nth)
      have "i < k" using k(3) i h(2) by (meson not_le not_less)
      then have "i \<le> k - 1" by simp
      show ?thesis
      proof (cases "i = k - 1")
        case True
        then show ?thesis by (simp add: i r_def)
      next
        case False
        with \<open>i \<le> k - 1\<close> have lt: "i < k - 1" by simp
        have kl: "k - 1 < length history" using kpos k(1) by simp
        have "epoch (history ! i) \<le> epoch (history ! (k - 1))"
          using sorted_epoch_nth [OF srt, of i "k - 1"] lt kl by simp
        moreover have "epoch (history ! i) \<noteq> epoch (history ! (k - 1))"
          using dist lt kl i(1) by (simp add: distinct_conv_nth)
        ultimately show ?thesis by (simp add: i r_def)
      qed
    qed
    show ?thesis using k(4) kpos rin rle great by (intro exI [of _ r]) (auto simp: r_def)
  qed
  show ?thesis using none some by blast
qed

theorem findHistoryEntryForEpoch_greatest_le_witness:
  "sorted_wrt (<) (map epoch
       [\<lparr>epoch = 1, active_balance = Some 10, active_shares = Some 10\<rparr>,
        \<lparr>epoch = 5, active_balance = Some 12, active_shares = Some 10\<rparr>,
        \<lparr>epoch = 9, active_balance = Some 15, active_shares = Some 10\<rparr>])
   \<and> findHistoryEntryForEpoch
       [\<lparr>epoch = 1, active_balance = Some 10, active_shares = Some 10\<rparr>,
        \<lparr>epoch = 5, active_balance = Some 12, active_shares = Some 10\<rparr>,
        \<lparr>epoch = 9, active_balance = Some 15, active_shares = Some 10\<rparr>] 6
       = Inr (Some \<lparr>epoch = 5, active_balance = Some 12, active_shares = Some 10\<rparr>)
   \<and> findHistoryEntryForEpoch
       [\<lparr>epoch = 1, active_balance = Some 10, active_shares = Some 10\<rparr>,
        \<lparr>epoch = 5, active_balance = Some 12, active_shares = Some 10\<rparr>,
        \<lparr>epoch = 9, active_balance = Some 15, active_shares = Some 10\<rparr>] 0
       = Inr None"
proof -
  let ?H = "[\<lparr>epoch = 1, active_balance = Some 10, active_shares = Some 10\<rparr>,
        \<lparr>epoch = 5, active_balance = Some 12, active_shares = Some 10\<rparr>,
        \<lparr>epoch = 9, active_balance = Some (15::int), active_shares = Some (10::int)\<rparr>]"
  have srt: "sorted_wrt (<) (map epoch ?H)" by simp
  have none: "findHistoryEntryForEpoch ?H 0 = Inr None"
    using findHistoryEntryForEpoch_greatest_le [OF srt, of 0] by simp
  obtain r where r: "findHistoryEntryForEpoch ?H 6 = Inr (Some r)" "r \<in> set ?H"
      "epoch r \<le> 6" "\<forall>h \<in> set ?H. epoch h \<le> 6 \<longrightarrow> h = r \<or> epoch h < epoch r"
    using findHistoryEntryForEpoch_greatest_le [OF srt, of 6] by auto
  from r(4) have "\<lparr>epoch = 5, active_balance = Some 12, active_shares = Some 10\<rparr> = r \<or> 5 < epoch r"
    by simp
  with r(2,3) have "r = \<lparr>epoch = 5, active_balance = Some 12, active_shares = Some 10\<rparr>"
    by auto
  with r(1) none srt show ?thesis by simp
qed

section \<open>Properties of the epoch sampler\<close>

declare month_loop.simps [simp del]

lemma sample_step_pos: "1 \<le> sample_step s e"
  by (simp add: sample_step_def Let_def)

lemma month_loop_closed:
  "month_loop s e x acc =
     acc @ map (\<lambda>k. x + int k * sample_step s e) [0..<nat ((e - x + sample_step s e) div sample_step s e)]"
proof (induction s e x acc rule: month_loop.induct)
  case (1 s e x acc)
  define st where "st = sample_step s e"
  have st: "1 \<le> st" by (simp add: st_def sample_step_pos)
  show ?case
  proof (cases "x \<le> e")
    case False
    then have "e - x + st \<le> st - 1" by simp
    then have "(e - x + st) div st \<le> (st - 1) div st"
      using st by (intro zdiv_mono1) simp_all
    moreover have "(st - 1) div st = 0" using st by (simp add: div_pos_pos_trivial)
    ultimately have "(e - x + st) div st \<le> 0" by simp
    with False show ?thesis by (subst month_loop.simps) (simp add: st_def)
  next
    case True
    have st0: "st \<noteq> 0" using st by simp
    have n: "(e - x + st) div st = (e - x) div st + 1" by (rule div_add_self2 [OF st0])
    have nn: "0 \<le> (e - x) div st" using True st by (simp add: pos_imp_zdiv_nonneg_iff)
    have cnt: "nat ((e - x + st) div st) = Suc (nat ((e - x) div st))" using n nn by simp
    have "e - (x + st) + st = e - x" by simp
    then have cnt': "(e - (x + st) + st) div st = (e - x) div st" by (rule arg_cong)
    have "month_loop s e x acc = month_loop s e (x + st) (acc @ [x])"
      using True by (subst month_loop.simps) (simp add: st_def)
    also have "\<dots> = (acc @ [x]) @ map (\<lambda>k. (x + st) + int k * st) [0..<nat ((e - x) div st)]"
      using "1.IH" [OF True] cnt' by (simp add: st_def)
    also have "map (\<lambda>k. (x + st) + int k * st) [0..<nat ((e - x) div st)]
        = map (\<lambda>k. x + int k * st) (map Suc [0..<nat ((e - x) div st)])"
      by (simp add: algebra_simps)
    also have "(acc @ [x]) @ map (\<lambda>k. x + int k * st) (map Suc [0..<nat ((e - x) div st)])
        = acc @ map (\<lambda>k. x + int k * st) [0..<Suc (nat ((e - x) div st))]"
      by (simp add: map_Suc_upt upt_conv_Cons del: upt_Suc)
    finally show ?thesis by (simp only: st_def cnt [unfolded st_def])
  qed
qed


lemma stepped_samples:
  "month_loop s e (s + sample_step s e) []
     = map (\<lambda>k. s + int k * sample_step s e) [1..<Suc (nat ((e - s) div sample_step s e))]"
proof -
  define st where "st = sample_step s e"
  have "e - (s + st) + st = e - s" by simp
  then have cnt: "(e - (s + st) + st) div st = (e - s) div st" by (rule arg_cong)
  have "month_loop s e (s + st) []
      = map (\<lambda>k. (s + st) + int k * st) [0..<nat ((e - s) div st)]"
    using month_loop_closed [of s e "s + st" "[]"] cnt by (simp add: st_def)
  also have "\<dots> = map (\<lambda>k. s + int k * st) (map Suc [0..<nat ((e - s) div st)])"
    by (simp add: algebra_simps)
  also have "map Suc [0..<nat ((e - s) div st)] = [1..<Suc (nat ((e - s) div st))]"
    by (simp only: map_Suc_upt One_nat_def)
  finally show ?thesis by (simp only: st_def)
qed

lemma stepped_range:
  assumes "x \<in> set (map (\<lambda>k. s + int k * sample_step s e) [1..<Suc (nat ((e - s) div sample_step s e))])"
  shows "s < x \<and> x \<le> e"
proof -
  define st where "st = sample_step s e"
  have st: "1 \<le> st" by (simp add: st_def sample_step_pos)
  from assms obtain k where k: "1 \<le> k" "k \<le> nat ((e - s) div st)" "x = s + int k * st"
    by (auto simp: st_def)
  have "1 * 1 \<le> int k * st" using k(1) st by (intro mult_mono) simp_all
  then have lo: "s < x" using k(3) by simp
  have "int k \<le> (e - s) div st" using k(1,2) by linarith
  then have "int k * st \<le> (e - s) div st * st" using st by (intro mult_right_mono) simp_all
  also have "\<dots> \<le> e - s"
  proof -
    have "(e - s) div st * st + (e - s) mod st = e - s" by simp
    moreover have "0 \<le> (e - s) mod st" using st by simp
    ultimately show ?thesis by linarith
  qed
  finally have "x \<le> e" using k(3) by simp
  with lo show ?thesis by simp
qed

lemma stepped_sorted:
  "sorted_wrt (<) (map (\<lambda>k. s + int k * sample_step s e) [a..<b])"
proof -
  have st: "0 < sample_step s e" using sample_step_pos [of s e] by simp
  have "sorted_wrt (<) [a..<b]" by (simp add: strict_sorted_iff)
  then show ?thesis
    using st by (simp add: sorted_wrt_map sorted_wrt_mono_rel [where P="(<)"])
qed


lemma epochsToProcess_month_closed:
  "granularity \<noteq> ''year'' \<Longrightarrow>
   epochsToProcess granularity s e =
     (let stepped = map (\<lambda>k. s + int k * sample_step s e) [1..<Suc (nat ((e - s) div sample_step s e))]
      in if stepped \<noteq> [] \<and> last stepped = e then stepped else stepped @ [e])"
  unfolding epochsToProcess_def Let_def stepped_samples by auto

lemma epochsToProcess_sorted: "sorted_wrt (<) (epochsToProcess granularity s e)"
proof (cases "granularity = ''year''")
  case True
  then show ?thesis by (simp add: epochsToProcess_def)
next
  case False
  define stepped where
    "stepped = map (\<lambda>k. s + int k * sample_step s e) [1..<Suc (nat ((e - s) div sample_step s e))]"
  have eq: "epochsToProcess granularity s e
      = (if stepped \<noteq> [] \<and> last stepped = e then stepped else stepped @ [e])"
    unfolding stepped_def using epochsToProcess_month_closed [OF False, of s e, unfolded Let_def] .
  have srt: "sorted_wrt (<) stepped" unfolding stepped_def by (rule stepped_sorted)
  have le: "\<forall>x \<in> set stepped. x \<le> e" using stepped_range [of _ s e] unfolding stepped_def by blast
  show ?thesis
  proof (cases "stepped \<noteq> [] \<and> last stepped = e")
    case True
    with srt show ?thesis by (simp add: eq)
  next
    case nl: False
    have "\<forall>x \<in> set stepped. x < e"
    proof
      fix x assume x: "x \<in> set stepped"
      then have ne: "stepped \<noteq> []" by auto
      with nl have "last stepped \<noteq> e" by simp
      moreover have "last stepped \<le> e" using le ne by simp
      moreover have "x \<le> last stepped"
      proof -
        from x obtain i where i: "i < length stepped" "x = stepped ! i" by (auto simp: in_set_conv_nth)
        show ?thesis
        proof (cases "i = length stepped - 1")
          case True
          then show ?thesis using i ne by (simp add: last_conv_nth)
        next
          case False
          with i have "i < length stepped - 1" by simp
          then have "stepped ! i < stepped ! (length stepped - 1)"
            using sorted_wrt_nth_less [OF srt, of i "length stepped - 1"] ne by simp
          then show ?thesis using i ne by (simp add: last_conv_nth)
        qed
      qed
      ultimately show "x < e" by simp
    qed
    with nl srt show ?thesis by (simp add: eq sorted_wrt_append)
  qed
qed

lemma epochsToProcess_last: "last (epochsToProcess granularity s e) = e"
  by (simp add: epochsToProcess_def Let_def)

lemma epochsToProcess_nonempty: "epochsToProcess granularity s e \<noteq> []"
  by (simp add: epochsToProcess_def Let_def)

lemma epochsToProcess_after_start:
  assumes "s < e" and "x \<in> set (epochsToProcess granularity s e)"
  shows "s < x \<and> x \<le> e"
proof (cases "granularity = ''year''")
  case True
  with assms show ?thesis by (simp add: epochsToProcess_def)
next
  case False
  define stepped where
    "stepped = map (\<lambda>k. s + int k * sample_step s e) [1..<Suc (nat ((e - s) div sample_step s e))]"
  have eq: "epochsToProcess granularity s e
      = (if stepped \<noteq> [] \<and> last stepped = e then stepped else stepped @ [e])"
    unfolding stepped_def using epochsToProcess_month_closed [OF False, of s e, unfolded Let_def] .
  from assms(2) have "x = e \<or> x \<in> set stepped"
    unfolding eq by (auto split: if_splits)
  then show ?thesis using assms(1) stepped_range [of x s e] unfolding stepped_def by auto
qed

lemma epochsToProcess_single: "epochsToProcess granularity s s = [s]"
proof (cases "granularity = ''year''")
  case True
  then show ?thesis by (simp add: epochsToProcess_def)
next
  case False
  have "sample_step s s = 1" by (simp add: sample_step_def Let_def)
  with False show ?thesis by (simp add: epochsToProcess_month_closed)
qed

text \<open>
  C4 (amended). For \<open>startEpoch \<le> endEpoch\<close>, granularity \<open>"year"\<close> yields the single sample
  \<open>endEpoch\<close>; granularity \<open>"month"\<close> yields \<open>startEpoch + step, startEpoch + 2*step, ...\<close>
  while not above \<open>endEpoch\<close>, with \<open>step = max(1, floor((endEpoch - startEpoch + 1) / 12))\<close>,
  closed by \<open>endEpoch\<close> when the stepped samples do not end there; the samples ascend
  strictly and end at \<open>endEpoch\<close>. The samples exclude \<open>startEpoch\<close> when
  \<open>startEpoch < endEpoch\<close>; when \<open>startEpoch = endEpoch\<close> the only sample is \<open>startEpoch\<close>.
\<close>

theorem epochsToProcess_samples:
  assumes "startEpoch \<le> endEpoch"
  shows "epochsToProcess ''year'' startEpoch endEpoch = [endEpoch]
    \<and> epochsToProcess ''month'' startEpoch endEpoch =
        (let step = max 1 ((endEpoch - startEpoch + 1) div 12);
             stepped = map (\<lambda>k. startEpoch + int k * step)
                         [1..<Suc (nat ((endEpoch - startEpoch) div step))]
         in if stepped \<noteq> [] \<and> last stepped = endEpoch then stepped else stepped @ [endEpoch])
    \<and> sorted_wrt (<) (epochsToProcess ''month'' startEpoch endEpoch)
    \<and> last (epochsToProcess ''month'' startEpoch endEpoch) = endEpoch
    \<and> (startEpoch < endEpoch \<longrightarrow>
          startEpoch \<notin> set (epochsToProcess ''year'' startEpoch endEpoch)
        \<and> startEpoch \<notin> set (epochsToProcess ''month'' startEpoch endEpoch))
    \<and> (startEpoch = endEpoch \<longrightarrow>
          epochsToProcess ''year'' startEpoch endEpoch = [startEpoch]
        \<and> epochsToProcess ''month'' startEpoch endEpoch = [startEpoch])"
proof -
  have year: "epochsToProcess ''year'' startEpoch endEpoch = [endEpoch]"
    by (simp add: epochsToProcess_def)
  have step: "sample_step startEpoch endEpoch = max 1 ((endEpoch - startEpoch + 1) div 12)"
    by (simp add: sample_step_def Let_def)
  have ne: "''month'' \<noteq> ''year''" by simp
  have month: "epochsToProcess ''month'' startEpoch endEpoch =
        (let step = max 1 ((endEpoch - startEpoch + 1) div 12);
             stepped = map (\<lambda>k. startEpoch + int k * step)
                         [1..<Suc (nat ((endEpoch - startEpoch) div step))]
         in if stepped \<noteq> [] \<and> last stepped = endEpoch then stepped else stepped @ [endEpoch])"
    unfolding step [symmetric] Let_def
    using epochsToProcess_month_closed [OF ne, of startEpoch endEpoch, unfolded Let_def] .
  have srt: "sorted_wrt (<) (epochsToProcess ''month'' startEpoch endEpoch)"
    by (rule epochsToProcess_sorted)
  have lst: "last (epochsToProcess ''month'' startEpoch endEpoch) = endEpoch"
    by (rule epochsToProcess_last)
  have notin: "startEpoch \<notin> set (epochsToProcess g startEpoch endEpoch)"
    if "startEpoch < endEpoch" for g
    using epochsToProcess_after_start [OF that, of startEpoch g] by auto
  have single: "epochsToProcess g startEpoch endEpoch = [startEpoch]"
    if "startEpoch = endEpoch" for g
    using that epochsToProcess_single [of g startEpoch] by simp
  from notin single have rest:
    "startEpoch < endEpoch \<longrightarrow>
          startEpoch \<notin> set (epochsToProcess ''year'' startEpoch endEpoch)
        \<and> startEpoch \<notin> set (epochsToProcess ''month'' startEpoch endEpoch)"
    "startEpoch = endEpoch \<longrightarrow>
          epochsToProcess ''year'' startEpoch endEpoch = [startEpoch]
        \<and> epochsToProcess ''month'' startEpoch endEpoch = [startEpoch]"
    by blast+
  show ?thesis
    by (intro conjI) (fact year month srt lst rest)+
qed

lemma upt_1_13: "[1..<Suc 12] = [1,2,3,4,5,6,7,8,9,10,11,12]"
  by (simp add: upt_conv_Cons)

theorem epochsToProcess_samples_witness:
  "(28809::int) \<le> 37689
   \<and> epochsToProcess ''year'' 28809 37689 = [37689]
   \<and> epochsToProcess ''month'' 28809 37689 =
       [29549, 30289, 31029, 31769, 32509, 33249, 33989, 34729, 35469, 36209, 36949, 37689]
   \<and> 28809 \<notin> set (epochsToProcess ''month'' 28809 37689)"
proof -
  have h: "(28809::int) \<le> 37689" by simp
  have n: "nat ((37689 - 28809) div max 1 ((37689 - 28809 + 1) div 12)) = 12" by simp
  note t = epochsToProcess_samples [OF h]
  from t have "epochsToProcess ''year'' 28809 37689 = [37689]" by blast
  moreover from t have "epochsToProcess ''month'' 28809 37689 =
       [29549, 30289, 31029, 31769, 32509, 33249, 33989, 34729, 35469, 36209, 36949, 37689]"
    unfolding Let_def n upt_1_13 by simp
  moreover from t have "28809 \<notin> set (epochsToProcess ''month'' 28809 37689)" by linarith
  ultimately show ?thesis by simp
qed

text \<open>
  C4 as stated fails for a period of one epoch: the sample is \<open>startEpoch\<close> itself.
\<close>

theorem epochsToProcess_includes_start_counterexample:
  "(5::int) \<le> 5 \<and> 5 \<in> set (epochsToProcess ''month'' 5 5) \<and> 5 \<in> set (epochsToProcess ''year'' 5 5)"
  by (simp add: epochsToProcess_def sample_step_def month_loop.simps)

section \<open>Properties of the numeric formatting\<close>

lemma digit_char_value: "d < 10 \<Longrightarrow> (of_char (digit_char d) :: nat) = 48 + d"
  by (simp add: digit_char_def)

lemma is_digit_digit_char: "d < 10 \<Longrightarrow> is_digit (digit_char d)"
  by (simp add: is_digit_def digit_char_value)

lemma digits_value_append:
  "digits_value (xs @ ys) = digits_value xs * 10 ^ length ys + digits_value ys"
proof (induction ys rule: rev_induct)
  case Nil
  then show ?case by (simp add: digits_value_def)
next
  case (snoc y ys)
  have "digits_value (xs @ ys @ [y]) = 10 * digits_value (xs @ ys) + (of_char y - 48)"
    by (simp add: digits_value_def)
  moreover have "digits_value (ys @ [y]) = 10 * digits_value ys + (of_char y - 48)"
    by (simp add: digits_value_def)
  ultimately show ?case using snoc by (simp add: algebra_simps)
qed

lemma digits_value_single: "digits_value [c] = of_char c - 48"
  by (simp add: digits_value_def)

lemma digits_value_nat_digits: "digits_value (nat_digits n) = n"
proof (induction n rule: nat_digits.induct)
  case (1 n)
  show ?case
  proof (cases "n < 10")
    case True
    then show ?thesis
      by (subst nat_digits.simps) (simp add: digits_value_single digit_char_value)
  next
    case False
    have "n mod 10 < 10" by simp
    then have "digits_value [digit_char (n mod 10)] = n mod 10"
      by (simp add: digits_value_single digit_char_value)
    with False "1.IH" show ?thesis
      by (subst nat_digits.simps) (simp add: digits_value_append)
  qed
qed

lemma nat_digits_is_digit: "c \<in> set (nat_digits n) \<Longrightarrow> is_digit c"
proof (induction n rule: nat_digits.induct)
  case (1 n)
  show ?case
  proof (cases "n < 10")
    case True
    with "1.prems" show ?thesis
      by (subst (asm) nat_digits.simps) (simp add: is_digit_digit_char)
  next
    case False
    have "is_digit (digit_char (n mod 10))" by (simp add: is_digit_digit_char)
    with False "1.IH" "1.prems" show ?thesis
      by (subst (asm) nat_digits.simps) auto
  qed
qed

lemma nat_digits_nonempty: "nat_digits n \<noteq> []"
  by (subst nat_digits.simps) simp

lemma digits_value_zeros: "digits_value (replicate k (CHR ''0'')) = 0"
  by (induction k) (simp_all add: digits_value_def)

lemma strip_trailing_zeros_pad:
  "strip_trailing_zeros b @ replicate (length b - length (strip_trailing_zeros b)) (CHR ''0'') = b"
proof (induction b rule: rev_induct)
  case Nil
  then show ?case by (simp add: strip_trailing_zeros_def)
next
  case (snoc x xs)
  show ?case
  proof (cases "x = CHR ''0''")
    case True
    then have s: "strip_trailing_zeros (xs @ [x]) = strip_trailing_zeros xs"
      by (simp add: strip_trailing_zeros_def)
    have le: "length (strip_trailing_zeros xs) \<le> length xs"
      by (simp add: strip_trailing_zeros_def length_dropWhile_le [of _ "rev xs", simplified])
    have "replicate (Suc (length xs) - length (strip_trailing_zeros xs)) (CHR ''0'')
        = replicate (length xs - length (strip_trailing_zeros xs)) (CHR ''0'') @ [CHR ''0'']"
      using le by (simp add: Suc_diff_le replicate_append_same)
    with snoc s True show ?thesis by (simp del: replicate_Suc)
  next
    case False
    then show ?thesis by (simp add: strip_trailing_zeros_def)
  qed
qed

lemma strip_trailing_zeros_last:
  "strip_trailing_zeros b \<noteq> [] \<Longrightarrow> last (strip_trailing_zeros b) \<noteq> CHR ''0''"
proof -
  assume ne: "strip_trailing_zeros b \<noteq> []"
  then have "dropWhile (\<lambda>c. c = CHR ''0'') (rev b) \<noteq> []" by (simp add: strip_trailing_zeros_def)
  then have "hd (dropWhile (\<lambda>c. c = CHR ''0'') (rev b)) \<noteq> CHR ''0''"
    using hd_dropWhile [of "\<lambda>c. c = CHR ''0''" "rev b"] by simp
  then show ?thesis using ne by (simp add: strip_trailing_zeros_def last_rev)
qed

lemma strip_trailing_zeros_subset: "set (strip_trailing_zeros b) \<subseteq> set b"
  using set_dropWhileD [of _ "\<lambda>c. c = CHR ''0''" "rev b"] by (auto simp: strip_trailing_zeros_def)


lemma is_digit_not_minus: "is_digit c \<Longrightarrow> c \<noteq> CHR ''-''"
  by (auto simp: is_digit_def)

lemma is_digit_not_point: "is_digit c \<Longrightarrow> c \<noteq> CHR ''.''"
  by (auto simp: is_digit_def)

lemma is_digit_zero: "is_digit (CHR ''0'')"
  by (simp add: is_digit_def)

lemma nat_digits_take1: "take 1 (nat_digits n) \<noteq> ''-''"
proof -
  obtain c cs where c: "nat_digits n = c # cs" using nat_digits_nonempty [of n] by (cases "nat_digits n") auto
  then have "is_digit c" using nat_digits_is_digit [of c n] by simp
  with c show ?thesis using is_digit_not_minus [of c] by simp
qed

lemma toRose_unfold:
  "toRose x e = (if x < 0 then ''-'' @ render_abs (ROSE_DECIMALS + e) (nat_digits (nat (- x)))
                 else render_abs (ROSE_DECIMALS + e) (nat_digits (nat x)))"
  using nat_digits_take1 [of "nat x"]
  by (simp add: toRose_def bigint_toString_def render_abs_def Let_def)

lemma render_abs_shape:
  assumes t: "0 < t" and ne: "ds \<noteq> []" and dig: "\<forall>c \<in> set ds. is_digit c"
  shows "\<exists>a f. render_abs t ds = a @ (if f = [] then [] else ''.'' @ f)
           \<and> a \<noteq> [] \<and> (\<forall>c \<in> set a. is_digit c) \<and> (\<forall>c \<in> set f. is_digit c)
           \<and> length f \<le> t \<and> (f \<noteq> [] \<longrightarrow> last f \<noteq> CHR ''0'')
           \<and> digits_value a * 10 ^ t + digits_value (f @ replicate (t - length f) (CHR ''0''))
               = digits_value ds"
proof -
  define padded where "padded = padStart (t + 1) (CHR ''0'') ds"
  define a where "a = take (length padded - t) padded"
  define b where "b = drop (length padded - t) padded"
  define f where "f = strip_trailing_zeros b"
  have len: "t + 1 \<le> length padded" by (simp add: padded_def padStart_def)
  have ab: "a @ b = padded" by (simp add: a_def b_def)
  have lb: "length b = t" using len by (simp add: b_def)
  have ane: "a \<noteq> []" using len by (auto simp: a_def)
  have pdig: "\<forall>c \<in> set padded. is_digit c"
    using dig is_digit_zero by (auto simp: padded_def padStart_def)
  have adig: "\<forall>c \<in> set a. is_digit c" using pdig ab by (metis Un_iff set_append)
  have bdig: "\<forall>c \<in> set b. is_digit c" using pdig ab by (metis Un_iff set_append)
  have fdig: "\<forall>c \<in> set f. is_digit c"
    using bdig strip_trailing_zeros_subset [of b] by (auto simp: f_def)
  have fpad: "f @ replicate (t - length f) (CHR ''0'') = b"
    using strip_trailing_zeros_pad [of b] lb by (simp add: f_def)
  have flen: "length f \<le> t"
    using arg_cong [OF fpad, of length] lb by simp
  have flast: "f \<noteq> [] \<longrightarrow> last f \<noteq> CHR ''0''"
    using strip_trailing_zeros_last [of b] by (simp add: f_def)
  have "digits_value padded = digits_value ds"
    by (simp add: padded_def padStart_def digits_value_append digits_value_zeros)
  then have val: "digits_value a * 10 ^ t + digits_value b = digits_value ds"
    using digits_value_append [of a b] ab lb by simp
  have fz: "f \<noteq> ''0''" using flast by auto
  have sl1: "slice_to_neg (padStart (t + 1) (CHR ''0'') ds) t = a"
    unfolding a_def padded_def slice_to_neg_def using t by simp
  have sl2: "slice_from_neg (padStart (t + 1) (CHR ''0'') ds) t = b"
    unfolding b_def padded_def slice_from_neg_def using t by simp
  have "render_abs t ds =
      (if or_string f ''0'' = ''0'' then or_string a ''0'' else or_string a ''0'' @ ''.'' @ or_string f ''0'')"
    by (simp only: render_abs_def Let_def sl1 sl2 f_def [symmetric])
  then have "render_abs t ds = (if f = [] then a else a @ ''.'' @ f)"
    using ane fz by (simp add: or_string_def)
  then have "render_abs t ds = a @ (if f = [] then [] else ''.'' @ f)" by simp
  with ane adig fdig flen flast val fpad show ?thesis by blast
qed

lemma parse_scaled_unsigned:
  "take 1 s \<noteq> ''-'' \<Longrightarrow>
   parse_scaled t s =
     int (digits_value (takeWhile (\<lambda>c. c \<noteq> CHR ''.'') s)) * 10 ^ t
     + int (digits_value (drop 1 (dropWhile (\<lambda>c. c \<noteq> CHR ''.'') s)
          @ replicate (t - length (drop 1 (dropWhile (\<lambda>c. c \<noteq> CHR ''.'') s))) (CHR ''0'')))"
  by (simp add: parse_scaled_def Let_def)

lemma parse_scaled_minus:
  "parse_scaled t (CHR ''-'' # s) =
     - (int (digits_value (takeWhile (\<lambda>c. c \<noteq> CHR ''.'') s)) * 10 ^ t
     + int (digits_value (drop 1 (dropWhile (\<lambda>c. c \<noteq> CHR ''.'') s)
          @ replicate (t - length (drop 1 (dropWhile (\<lambda>c. c \<noteq> CHR ''.'') s))) (CHR ''0''))))"
  by (simp add: parse_scaled_def Let_def)

lemma parse_scaled_shape:
  assumes "a \<noteq> []" and "\<forall>c \<in> set a. is_digit c" and "\<forall>c \<in> set f. is_digit c"
  shows "parse_scaled t (a @ (if f = [] then [] else ''.'' @ f))
           = int (digits_value a) * 10 ^ t
             + int (digits_value (f @ replicate (t - length f) (CHR ''0'')))"
    and "parse_scaled t (''-'' @ a @ (if f = [] then [] else ''.'' @ f))
           = - (int (digits_value a) * 10 ^ t
             + int (digits_value (f @ replicate (t - length f) (CHR ''0''))))"
proof -
  define s where "s = a @ (if f = [] then [] else ''.'' @ f)"
  obtain c cs where c: "a = c # cs" using assms(1) by (cases a) auto
  then have "c \<noteq> CHR ''-''" using assms(2) is_digit_not_minus by auto
  then have nominus: "take 1 s \<noteq> ''-''" using c by (simp add: s_def)
  have nopoint: "\<forall>c \<in> set a. c \<noteq> CHR ''.''" using assms(2) is_digit_not_point by auto
  have tw: "takeWhile (\<lambda>c. c \<noteq> CHR ''.'') s = a"
    using nopoint by (simp add: s_def takeWhile_append2)
  have dw: "drop 1 (dropWhile (\<lambda>c. c \<noteq> CHR ''.'') s) = f"
    using nopoint by (simp add: s_def dropWhile_append2)
  have "parse_scaled t s = int (digits_value a) * 10 ^ t
             + int (digits_value (f @ replicate (t - length f) (CHR ''0'')))"
    by (simp only: parse_scaled_unsigned [OF nominus] tw dw)
  then show "parse_scaled t (a @ (if f = [] then [] else ''.'' @ f))
           = int (digits_value a) * 10 ^ t
             + int (digits_value (f @ replicate (t - length f) (CHR ''0'')))"
    by (simp only: s_def)
  have "parse_scaled t (CHR ''-'' # s) = - (int (digits_value a) * 10 ^ t
             + int (digits_value (f @ replicate (t - length f) (CHR ''0''))))"
    by (simp only: parse_scaled_minus tw dw)
  then show "parse_scaled t (''-'' @ a @ (if f = [] then [] else ''.'' @ f))
           = - (int (digits_value a) * 10 ^ t
             + int (digits_value (f @ replicate (t - length f) (CHR ''0''))))"
    by (simp only: s_def append_Cons append_Nil)
qed

lemma ROSE_DECIMALS_pos: "0 < ROSE_DECIMALS + e"
  by (simp add: ROSE_DECIMALS_def)

lemma toRose_shape:
  "\<exists>a f. toRose x e = (if x < 0 then ''-'' else []) @ a @ (if f = [] then [] else ''.'' @ f)
     \<and> a \<noteq> [] \<and> (\<forall>c \<in> set a. is_digit c) \<and> (\<forall>c \<in> set f. is_digit c)
     \<and> length f \<le> ROSE_DECIMALS + e \<and> (f \<noteq> [] \<longrightarrow> last f \<noteq> CHR ''0'')
     \<and> parse_scaled (ROSE_DECIMALS + e) (toRose x e) = x"
proof -
  define n where "n = (if x < 0 then nat (- x) else nat x)"
  define t where "t = ROSE_DECIMALS + e"
  have r: "toRose x e = (if x < 0 then ''-'' else []) @ render_abs t (nat_digits n)"
    by (simp add: toRose_unfold n_def t_def)
  have "\<forall>c \<in> set (nat_digits n). is_digit c" using nat_digits_is_digit by blast
  from render_abs_shape [OF ROSE_DECIMALS_pos [of e, folded t_def] nat_digits_nonempty this]
  obtain a f where af: "render_abs t (nat_digits n) = a @ (if f = [] then [] else ''.'' @ f)"
      "a \<noteq> []" "\<forall>c \<in> set a. is_digit c" "\<forall>c \<in> set f. is_digit c"
      "length f \<le> t" "f \<noteq> [] \<longrightarrow> last f \<noteq> CHR ''0''"
      "digits_value a * 10 ^ t + digits_value (f @ replicate (t - length f) (CHR ''0'')) = n"
    by (auto simp: digits_value_nat_digits)
  have val: "int (digits_value a) * 10 ^ t
      + int (digits_value (f @ replicate (t - length f) (CHR ''0''))) = int n"
    using arg_cong [OF af(7), of int] by simp
  have "parse_scaled t (toRose x e) = x"
  proof (cases "x < 0")
    case True
    then have "toRose x e = ''-'' @ a @ (if f = [] then [] else ''.'' @ f)"
      by (simp add: r af(1))
    moreover have "int n = - x" using True by (simp add: n_def)
    ultimately show ?thesis
      using parse_scaled_shape(2) [OF af(2,3,4), of t] val by simp
  next
    case False
    then have "toRose x e = a @ (if f = [] then [] else ''.'' @ f)"
      by (simp add: r af(1))
    moreover have "int n = x" using False by (simp add: n_def)
    ultimately show ?thesis
      using parse_scaled_shape(1) [OF af(2,3,4), of t] val by simp
  qed
  moreover have "toRose x e = (if x < 0 then ''-'' else []) @ a @ (if f = [] then [] else ''.'' @ f)"
    by (simp only: r af(1))
  ultimately show ?thesis
    using af(2-6) unfolding t_def by (intro exI [of _ a] exI [of _ f]) simp
qed

lemma parse_toRose: "parse_scaled (ROSE_DECIMALS + e) (toRose x e) = x"
  using toRose_shape [of x e] by blast


text \<open>
  C6. \<open>toRose\<close> renders an amount as a decimal string of fractional width
  \<open>ROSE_DECIMALS + extraDecimals\<close>: a minus sign exactly for a negative amount, at least one
  integer digit, and either no fractional part or a point followed by at most that many
  digits, the last of them not a zero. Reading the string back as a scaled decimal gives
  the amount.
\<close>

theorem toRose_contract:
  "parse_scaled (ROSE_DECIMALS + extraDecimals) (toRose amount extraDecimals) = amount
   \<and> (\<exists>intDigits fracDigits.
         toRose amount extraDecimals
           = (if amount < 0 then ''-'' else []) @ intDigits
             @ (if fracDigits = [] then [] else ''.'' @ fracDigits)
         \<and> intDigits \<noteq> [] \<and> (\<forall>c \<in> set intDigits. is_digit c)
         \<and> (\<forall>c \<in> set fracDigits. is_digit c)
         \<and> length fracDigits \<le> ROSE_DECIMALS + extraDecimals
         \<and> (fracDigits \<noteq> [] \<longrightarrow> last fracDigits \<noteq> CHR ''0''))"
  using toRose_shape [of amount extraDecimals] by blast

lemma nat_digits_small: "n < 10 \<Longrightarrow> nat_digits n = [digit_char n]"
  by (subst nat_digits.simps) simp

lemma nat_digits_step: "10 \<le> n \<Longrightarrow> nat_digits n = nat_digits (n div 10) @ [digit_char (n mod 10)]"
  by (subst nat_digits.simps) simp

lemma digit_chars:
  "digit_char 0 = CHR ''0''" "digit_char 1 = CHR ''1''" "digit_char 2 = CHR ''2''"
  "digit_char 3 = CHR ''3''" "digit_char 4 = CHR ''4''" "digit_char 5 = CHR ''5''"
  "digit_char 6 = CHR ''6''" "digit_char 7 = CHR ''7''" "digit_char 8 = CHR ''8''"
  "digit_char 9 = CHR ''9''" "digit_char (Suc 0) = CHR ''1''"
  by (code_simp+)

lemma toRose_example_50: "toRose 50000000000 0 = ''50''"
  by (simp add: toRose_def ROSE_DECIMALS_def bigint_toString_def nat_digits_small nat_digits_step
      digit_chars padStart_def slice_to_neg_def slice_from_neg_def strip_trailing_zeros_def
      or_string_def Let_def)

lemma toRose_example_neg: "toRose (- 1500000000) 0 = ''-1.5''"
  by (simp add: toRose_def ROSE_DECIMALS_def bigint_toString_def nat_digits_small nat_digits_step
      digit_chars padStart_def slice_to_neg_def slice_from_neg_def strip_trailing_zeros_def
      or_string_def Let_def)

lemma toRose_example_price: "toRose 1 18 = ''0.000000000000000000000000001''"
  by (simp add: toRose_def ROSE_DECIMALS_def bigint_toString_def nat_digits_small nat_digits_step
      digit_chars padStart_def slice_to_neg_def slice_from_neg_def strip_trailing_zeros_def
      or_string_def Let_def eval_nat_numeral)

theorem toRose_contract_witness:
  "toRose 50000000000 0 = ''50'' \<and> parse_scaled 9 ''50'' = 50000000000
   \<and> toRose (- 1500000000) 0 = ''-1.5'' \<and> parse_scaled 9 ''-1.5'' = - 1500000000
   \<and> toRose 1 18 = ''0.000000000000000000000000001''
   \<and> parse_scaled 27 ''0.000000000000000000000000001'' = 1"
  using toRose_contract [of 0 50000000000] toRose_contract [of 0 "- 1500000000"]
    toRose_contract [of 18 1]
  by (simp add: ROSE_DECIMALS_def toRose_example_50 toRose_example_neg toRose_example_price)


section \<open>Properties of the share-position reconstruction\<close>

lemma shares_sum_nonneg:
  "\<forall>ev \<in> set events. 0 \<le> or_zero (field ev) \<Longrightarrow> 0 \<le> shares_sum field v events"
  by (induction events) (auto simp: shares_sum_def)

lemma fold_reverse_add_value:
  assumes "0 \<le> or_zero (m v)" and "\<forall>ev \<in> set adds. 0 \<le> or_zero (new_shares ev)"
  shows "or_zero (fold reverse_add adds m v) = max 0 (or_zero (m v) - shares_sum new_shares v adds)"
  using assms
proof (induction adds arbitrary: m)
  case Nil
  then show ?case by (simp add: shares_sum_def)
next
  case (Cons ev adds)
  have rest: "0 \<le> shares_sum new_shares v adds"
    using Cons.prems(2) by (intro shares_sum_nonneg) simp
  have ev0: "0 \<le> or_zero (new_shares ev)" using Cons.prems(2) by simp
  show ?case
  proof (cases "normalizeAddress (escrow ev) = v")
    case True
    have step: "or_zero (reverse_add ev m v) = max 0 (or_zero (m v) - or_zero (new_shares ev))"
      using True by (simp add: reverse_add_def Let_def or_zero_def)
    then have "0 \<le> or_zero (reverse_add ev m v)" by simp
    with Cons.IH [of "reverse_add ev m"] Cons.prems(2)
    have "or_zero (fold reverse_add adds (reverse_add ev m) v)
        = max 0 (or_zero (reverse_add ev m v) - shares_sum new_shares v adds)" by simp
    moreover have "shares_sum new_shares v (ev # adds)
        = or_zero (new_shares ev) + shares_sum new_shares v adds"
      using True by (simp add: shares_sum_def)
    ultimately show ?thesis using step rest ev0 by simp
  next
    case False
    have step: "reverse_add ev m v = m v"
      using False by (simp add: reverse_add_def Let_def)
    then have "0 \<le> or_zero (reverse_add ev m v)" using Cons.prems(1) by simp
    with Cons.IH [of "reverse_add ev m"] Cons.prems(2)
    have "or_zero (fold reverse_add adds (reverse_add ev m) v)
        = max 0 (or_zero (reverse_add ev m v) - shares_sum new_shares v adds)" by simp
    moreover have "shares_sum new_shares v (ev # adds) = shares_sum new_shares v adds"
      using False by (simp add: shares_sum_def)
    ultimately show ?thesis using step by simp
  qed
qed

lemma fold_reverse_debond_value:
  "or_zero (fold reverse_debond debonds m v)
     = or_zero (m v) + shares_sum debonding_shares v debonds"
proof (induction debonds arbitrary: m)
  case Nil
  then show ?case by (simp add: shares_sum_def)
next
  case (Cons ev debonds)
  show ?case
  proof (cases "normalizeAddress (escrow ev) = v")
    case True
    then have "or_zero (reverse_debond ev m v) = or_zero (m v) + or_zero (debonding_shares ev)"
      by (simp add: reverse_debond_def Let_def or_zero_def)
    moreover have "shares_sum debonding_shares v (ev # debonds)
        = or_zero (debonding_shares ev) + shares_sum debonding_shares v debonds"
      using True by (simp add: shares_sum_def)
    ultimately show ?thesis using Cons.IH [of "reverse_debond ev m"] by simp
  next
    case False
    then have "reverse_debond ev m v = m v" by (simp add: reverse_debond_def Let_def)
    moreover have "shares_sum debonding_shares v (ev # debonds)
        = shares_sum debonding_shares v debonds"
      using False by (simp add: shares_sum_def)
    ultimately show ?thesis using Cons.IH [of "reverse_debond ev m"] by simp
  qed
qed

lemma sharesPerValidator_value:
  assumes "0 \<le> or_zero (currentSharesPerValidator v)"
    and "\<forall>ev \<in> set relevantAddEvents. 0 \<le> or_zero (new_shares ev)"
  shows "or_zero (sharesPerValidator currentSharesPerValidator relevantAddEvents relevantDebondEvents v)
     = max 0 (or_zero (currentSharesPerValidator v) - shares_sum new_shares v relevantAddEvents)
       + shares_sum debonding_shares v relevantDebondEvents"
  using fold_reverse_add_value [of currentSharesPerValidator v relevantAddEvents] assms
  by (simp add: sharesPerValidator_def fold_reverse_debond_value)

lemma toLowerCase_val: "toLowerCase ''val'' = ''val''"
  by (simp add: toLowerCase_def)

text \<open>
  C3. The claim reads: the start-epoch count is the current count less the \<open>newShares\<close>
  of the Add events plus the \<open>debondingShares\<close> of the Debond events, floored at zero.
  \<open>sharesPerValidator\<close> floors inside the Add loop, before the Debond loop runs: a holder
  of 50 shares who added 100 and then debonded 100 within the period is given 100 shares
  at the start, where the claim (and \<open>initialShares\<close> of the single-validator script)
  gives 50.
\<close>

theorem sharesPerValidator_early_clamp:
  "sharesPerValidator [''val'' \<mapsto> 50]
     [\<lparr>owner = Some ''me'', escrow = Some ''val'', body_epoch = Some 10, new_shares = Some 100,
       debonding_shares = None, body_amount = Some 100\<rparr>]
     [\<lparr>owner = Some ''me'', escrow = Some ''val'', body_epoch = Some 20, new_shares = None,
       debonding_shares = Some 100, body_amount = Some 100\<rparr>] ''val'' = Some 100
   \<and> max 0 (50 - 100 + 100) = (50::int)
   \<and> initialShares (Some 50)
     [\<lparr>owner = Some ''me'', escrow = Some ''val'', body_epoch = Some 10, new_shares = Some 100,
       debonding_shares = None, body_amount = Some 100\<rparr>]
     [\<lparr>owner = Some ''me'', escrow = Some ''val'', body_epoch = Some 20, new_shares = None,
       debonding_shares = Some 100, body_amount = Some 100\<rparr>] = 50"
  by (simp add: sharesPerValidator_def reverse_add_def reverse_debond_def initialShares_def
      normalizeAddress_def toLowerCase_val or_zero_def Let_def)

section \<open>Properties of the event application\<close>

lemma findHistoryEntryForEpoch_located:
  "findHistoryEntryForEpoch history targetEpoch = Inr (located history targetEpoch)"
  using findHistoryEntryForEpoch_no_error [of history targetEpoch]
  by (auto simp: located_def)

lemma apply_event_step:
  "apply_event validatorHistories e ev validatorState
     = Inr (event_step validatorHistories e ev validatorState)"
  by (auto simp: apply_event_def event_step_def event_update_def findHistoryEntryForEpoch_located
      Let_def max_def split: option.splits event_type.splits)

lemma apply_events_fold:
  "apply_events validatorHistories e events validatorState
     = Inr (fold (event_step validatorHistories e) events validatorState)"
  by (induction events arbitrary: validatorState) (simp_all add: apply_event_step)

lemma epoch_step_fold:
  "fold (event_step validatorHistories e) (or_empty (eventsByEpoch e)) validatorState
     = epoch_step eventsByEpoch validatorHistories e validatorState"
  by (simp add: epoch_step_def)

lemma apply_epochs_fold:
  "apply_epochs eventsByEpoch validatorHistories e sampleEpoch validatorState
     = Inr (fold (epoch_step eventsByEpoch validatorHistories) [e..sampleEpoch] validatorState)"
proof (induction eventsByEpoch validatorHistories e sampleEpoch validatorState
    rule: apply_epochs.induct)
  case (1 eventsByEpoch validatorHistories e sampleEpoch validatorState)
  show ?case
  proof (cases "e \<le> sampleEpoch")
    case True
    then have "[e..sampleEpoch] = e # [e + 1..sampleEpoch]" by (simp add: upto_rec1)
    with True "1.IH" show ?thesis
      by (subst apply_epochs.simps) (simp add: apply_events_fold epoch_step_fold)
  next
    case False
    then show ?thesis by (subst apply_epochs.simps) simp
  qed
qed

lemma emit_validator_step:
  "validatorState v = Some state \<Longrightarrow>
   emit_validator startEpoch epochTimestamps validatorHistories sampleEpoch timestamp v
       (results, validatorState)
     = Inr (emit_step startEpoch epochTimestamps validatorHistories sampleEpoch timestamp v
              (results, validatorState))"
  by (simp add: emit_validator_def emit_step_def findHistoryEntryForEpoch_located row_of_def
      settle_def Let_def split: option.splits)

lemma emit_validator_no_state:
  "validatorState v = None \<Longrightarrow>
   emit_validator startEpoch epochTimestamps validatorHistories sampleEpoch timestamp v
       (results, validatorState) = Inl TypeError"
  by (simp add: emit_validator_def)

lemma emit_step_dom:
  "dom (snd (emit_step startEpoch epochTimestamps validatorHistories sampleEpoch timestamp v
               (results, validatorState))) = dom validatorState"
  by (auto simp: emit_step_def split: option.splits if_splits)

lemma emit_rows_fold:
  "set validators \<subseteq> dom validatorState \<Longrightarrow>
   emit_rows startEpoch epochTimestamps validatorHistories sampleEpoch timestamp validators
       (results, validatorState)
     = Inr (fold (emit_step startEpoch epochTimestamps validatorHistories sampleEpoch timestamp)
              validators (results, validatorState))"
proof (induction validators arbitrary: results validatorState)
  case Nil
  then show ?case by simp
next
  case (Cons v validators)
  from Cons.prems obtain state where st: "validatorState v = Some state" by auto
  obtain results' validatorState' where
    step: "emit_step startEpoch epochTimestamps validatorHistories sampleEpoch timestamp v
             (results, validatorState) = (results', validatorState')"
    by (cases "emit_step startEpoch epochTimestamps validatorHistories sampleEpoch timestamp v
             (results, validatorState)")
  have "dom validatorState' = dom validatorState"
    using emit_step_dom [of startEpoch epochTimestamps validatorHistories sampleEpoch timestamp v
        results validatorState] step by simp
  with Cons.prems have "set validators \<subseteq> dom validatorState'" by simp
  from Cons.IH [OF this, of results'] show ?case
    using emit_validator_step [of validatorState v state startEpoch epochTimestamps
        validatorHistories sampleEpoch timestamp results] st
    by (simp add: step)
qed

lemma event_step_dom: "dom (event_step validatorHistories e ev validatorState) = dom validatorState"
  by (auto simp: event_step_def split: option.splits)

lemma fold_event_step_dom:
  "dom (fold (event_step validatorHistories e) events validatorState) = dom validatorState"
  by (induction events arbitrary: validatorState) (simp_all add: event_step_dom)

lemma epoch_step_dom:
  "dom (epoch_step eventsByEpoch validatorHistories e validatorState) = dom validatorState"
  by (simp add: epoch_step_def fold_event_step_dom)

lemma fold_epoch_step_dom:
  "dom (fold (epoch_step eventsByEpoch validatorHistories) es validatorState) = dom validatorState"
  by (induction es arbitrary: validatorState) (simp_all add: epoch_step_dom)

lemma event_step_nonneg:
  assumes "\<forall>v state. validatorState v = Some state \<longrightarrow> 0 \<le> shares state"
    and "ev_type ev = Add \<longrightarrow> 0 \<le> ev_shares ev"
  shows "\<forall>v state. event_step validatorHistories e ev validatorState v = Some state
           \<longrightarrow> 0 \<le> shares state"
  using assms
  by (auto simp: event_step_def event_update_def Let_def split: option.splits event_type.splits if_splits)

lemma fold_event_step_nonneg:
  assumes "\<forall>v state. validatorState v = Some state \<longrightarrow> 0 \<le> shares state"
    and "\<forall>ev \<in> set events. ev_type ev = Add \<longrightarrow> 0 \<le> ev_shares ev"
  shows "\<forall>v state. fold (event_step validatorHistories e) events validatorState v = Some state
           \<longrightarrow> 0 \<le> shares state"
  using assms
proof (induction events arbitrary: validatorState)
  case Nil
  then show ?case by simp
next
  case (Cons ev events)
  have "\<forall>v state. event_step validatorHistories e ev validatorState v = Some state
           \<longrightarrow> 0 \<le> shares state"
    using Cons.prems by (intro event_step_nonneg) simp_all
  from Cons.IH [OF this] Cons.prems(2) show ?case by simp
qed

lemma fold_epoch_step_nonneg:
  assumes "\<forall>v state. validatorState v = Some state \<longrightarrow> 0 \<le> shares state"
    and "\<forall>e' \<in> set es. \<forall>ev \<in> set (or_empty (eventsByEpoch e')).
           ev_type ev = Add \<longrightarrow> 0 \<le> ev_shares ev"
  shows "\<forall>v state. fold (epoch_step eventsByEpoch validatorHistories) es validatorState v = Some state
           \<longrightarrow> 0 \<le> shares state"
  using assms
proof (induction es arbitrary: validatorState)
  case Nil
  then show ?case by simp
next
  case (Cons e' es)
  have "\<forall>v state. epoch_step eventsByEpoch validatorHistories e' validatorState v = Some state
           \<longrightarrow> 0 \<le> shares state"
    unfolding epoch_step_def using Cons.prems by (intro fold_event_step_nonneg) simp_all
  from Cons.IH [OF this] Cons.prems(2) show ?case by simp
qed

text \<open>
  C5 (amended). From non-negative share counts, every \<open>shares\<close> value is non-negative
  after the engine has applied any list of events, and any range of epochs, whose Add
  events carry non-negative \<open>newShares\<close>; a Debond whose \<open>debondingShares\<close> exceed the
  current count sets \<open>shares\<close> to zero.
\<close>

theorem shares_zero_floor:
  assumes "\<forall>v state. validatorState v = Some state \<longrightarrow> 0 \<le> shares state"
    and "\<forall>ev \<in> set events. ev_type ev = Add \<longrightarrow> 0 \<le> ev_shares ev"
    and "\<forall>e'. e \<le> e' \<and> e' \<le> sampleEpoch \<longrightarrow>
           (\<forall>ev \<in> set (or_empty (eventsByEpoch e')). ev_type ev = Add \<longrightarrow> 0 \<le> ev_shares ev)"
  shows "(\<exists>validatorState'.
            apply_events validatorHistories e events validatorState = Inr validatorState'
            \<and> (\<forall>v state'. validatorState' v = Some state' \<longrightarrow> 0 \<le> shares state'))
       \<and> (\<exists>validatorState'.
            apply_epochs eventsByEpoch validatorHistories e sampleEpoch validatorState
              = Inr validatorState'
            \<and> (\<forall>v state'. validatorState' v = Some state' \<longrightarrow> 0 \<le> shares state'))
       \<and> (\<forall>ev state. validatorState (ev_validator ev) = Some state \<and> ev_type ev = Debond
              \<and> shares state < ev_shares ev \<longrightarrow>
            (\<exists>validatorState' state'.
               apply_event validatorHistories e ev validatorState = Inr validatorState'
               \<and> validatorState' (ev_validator ev) = Some state' \<and> shares state' = 0))"
proof (intro conjI)
  show "\<exists>validatorState'.
            apply_events validatorHistories e events validatorState = Inr validatorState'
            \<and> (\<forall>v state'. validatorState' v = Some state' \<longrightarrow> 0 \<le> shares state')"
    using fold_event_step_nonneg [OF assms(1,2)] by (simp add: apply_events_fold)
  have "\<forall>e' \<in> set [e..sampleEpoch]. \<forall>ev \<in> set (or_empty (eventsByEpoch e')).
           ev_type ev = Add \<longrightarrow> 0 \<le> ev_shares ev"
    using assms(3) by simp
  from fold_epoch_step_nonneg [OF assms(1) this]
  show "\<exists>validatorState'.
            apply_epochs eventsByEpoch validatorHistories e sampleEpoch validatorState
              = Inr validatorState'
            \<and> (\<forall>v state'. validatorState' v = Some state' \<longrightarrow> 0 \<le> shares state')"
    by (simp add: apply_epochs_fold)
  show "\<forall>ev state. validatorState (ev_validator ev) = Some state \<and> ev_type ev = Debond
              \<and> shares state < ev_shares ev \<longrightarrow>
            (\<exists>validatorState' state'.
               apply_event validatorHistories e ev validatorState = Inr validatorState'
               \<and> validatorState' (ev_validator ev) = Some state' \<and> shares state' = 0)"
    by (auto simp: apply_event_step event_step_def event_update_def Let_def)
qed

text \<open>
  C9. A Debond event whose shares exceed the validator's tracked shares sets \<open>shares\<close> to
  zero and still adds the snapshot-priced value of all of the event's shares to
  \<open>periodUndelegationValue\<close>.
\<close>

theorem debond_clamp_full_value:
  assumes "validatorState (ev_validator ev) = Some state"
    and "ev_type ev = Debond"
    and "shares state < ev_shares ev"
    and "findHistoryEntryForEpoch (or_empty (validatorHistories (ev_validator ev))) e
           = Inr historyEntry"
  shows "apply_event validatorHistories e ev validatorState
     = Inr (validatorState(ev_validator ev \<mapsto> state
         \<lparr>shares := 0,
          periodUndelegationValue := periodUndelegationValue state
             + calculateTotalValue (ev_shares ev) historyEntry\<rparr>))"
  using assms by (simp add: apply_event_def)

lemma findHistoryEntryForEpoch_empty: "findHistoryEntryForEpoch [] e = Inr None"
  by (simp add: findHistoryEntryForEpoch_def)

lemma calculateTotalValue_None: "calculateTotalValue n None = 0"
  by (simp add: calculateTotalValue_def)

theorem shares_zero_floor_witness:
  "apply_events Map.empty 1
     [\<lparr>ev_type = Add, ev_validator = ''val'', ev_shares = 3, ev_amount = 3\<rparr>,
      \<lparr>ev_type = Debond, ev_validator = ''val'', ev_shares = 10, ev_amount = 10\<rparr>]
     [''val'' \<mapsto> \<lparr>shares = 5, prevTotalValue = 5, periodDelegationValue = 0,
                  periodUndelegationValue = 0\<rparr>]
     = Inr [''val'' \<mapsto> \<lparr>shares = 0, prevTotalValue = 5, periodDelegationValue = 0,
                  periodUndelegationValue = 0\<rparr>]
   \<and> apply_epochs
     [1 \<mapsto> [\<lparr>ev_type = Add, ev_validator = ''val'', ev_shares = 3, ev_amount = 3\<rparr>,
      \<lparr>ev_type = Debond, ev_validator = ''val'', ev_shares = 10, ev_amount = 10\<rparr>]]
     Map.empty 1 1
     [''val'' \<mapsto> \<lparr>shares = 5, prevTotalValue = 5, periodDelegationValue = 0,
                  periodUndelegationValue = 0\<rparr>]
     = Inr [''val'' \<mapsto> \<lparr>shares = 0, prevTotalValue = 5, periodDelegationValue = 0,
                  periodUndelegationValue = 0\<rparr>]"
proof -
  let ?evs = "[\<lparr>ev_type = Add, ev_validator = ''val'', ev_shares = 3, ev_amount = 3\<rparr>,
      \<lparr>ev_type = Debond, ev_validator = ''val'', ev_shares = 10, ev_amount = 10\<rparr>]"
  let ?vs = "[''val'' \<mapsto> \<lparr>shares = 5, prevTotalValue = 5, periodDelegationValue = 0,
                  periodUndelegationValue = 0\<rparr>]"
  have h1: "\<forall>v state. ?vs v = Some state \<longrightarrow> 0 \<le> shares state" by auto
  have h2: "\<forall>ev \<in> set ?evs. ev_type ev = Add \<longrightarrow> 0 \<le> ev_shares ev" by simp
  have h3: "\<forall>e'. (1::int) \<le> e' \<and> e' \<le> 1 \<longrightarrow>
           (\<forall>ev \<in> set (or_empty ([1 \<mapsto> ?evs] e')). ev_type ev = Add \<longrightarrow> 0 \<le> ev_shares ev)"
    by (simp add: or_empty_def)
  note t = shares_zero_floor [OF h1 h2 h3, of Map.empty]
  have ev: "apply_events Map.empty 1 ?evs ?vs
      = Inr [''val'' \<mapsto> \<lparr>shares = 0, prevTotalValue = 5, periodDelegationValue = 0,
                  periodUndelegationValue = 0\<rparr>]"
    by (simp add: apply_event_def or_empty_def findHistoryEntryForEpoch_empty
        calculateTotalValue_None)
  have ep: "apply_epochs [1 \<mapsto> ?evs] Map.empty 1 1 ?vs
      = Inr [''val'' \<mapsto> \<lparr>shares = 0, prevTotalValue = 5, periodDelegationValue = 0,
                  periodUndelegationValue = 0\<rparr>]"
    by (simp add: apply_epochs.simps apply_event_def or_empty_def findHistoryEntryForEpoch_empty
        calculateTotalValue_None)
  from t ev ep show ?thesis by simp
qed

text \<open>
  C5 as stated fails: the Add branch has no floor, so an Add event whose \<open>new_shares\<close>
  is negative takes a count of zero below zero.
\<close>

theorem add_negative_shares_counterexample:
  "apply_events Map.empty 1
     [\<lparr>ev_type = Add, ev_validator = ''val'', ev_shares = - 5, ev_amount = - 5\<rparr>]
     [''val'' \<mapsto> \<lparr>shares = 0, prevTotalValue = 0, periodDelegationValue = 0,
                  periodUndelegationValue = 0\<rparr>]
     = Inr [''val'' \<mapsto> \<lparr>shares = - 5, prevTotalValue = 0, periodDelegationValue = 0,
                  periodUndelegationValue = 0\<rparr>]
   \<and> (- 5 :: int) < 0"
  by (simp add: apply_event_def or_empty_def findHistoryEntryForEpoch_empty
      calculateTotalValue_None)

lemma findHistoryEntryForEpoch_single:
  "findHistoryEntryForEpoch [h] e = Inr (if epoch h \<le> e then Some h else None)"
  by (simp add: findHistoryEntryForEpoch_def bsearch_loop.simps [of _ _ 0 0]
      bsearch_loop_done Let_def)

theorem debond_clamp_full_value_witness:
  "apply_event [''val'' \<mapsto> [\<lparr>epoch = 1, active_balance = Some 20, active_shares = Some 10\<rparr>]] 1
     \<lparr>ev_type = Debond, ev_validator = ''val'', ev_shares = 7, ev_amount = 14\<rparr>
     [''val'' \<mapsto> \<lparr>shares = 3, prevTotalValue = 6, periodDelegationValue = 0,
                  periodUndelegationValue = 0\<rparr>]
     = Inr [''val'' \<mapsto> \<lparr>shares = 0, prevTotalValue = 6, periodDelegationValue = 0,
                  periodUndelegationValue = 14\<rparr>]
   \<and> calculateTotalValue 3 (Some \<lparr>epoch = 1, active_balance = Some 20, active_shares = Some 10\<rparr>)
     = 6"
proof -
  let ?h = "\<lparr>epoch = 1, active_balance = Some 20, active_shares = Some 10\<rparr>"
  let ?ev = "\<lparr>ev_type = Debond, ev_validator = ''val'', ev_shares = 7, ev_amount = 14\<rparr>"
  let ?st = "\<lparr>shares = 3, prevTotalValue = 6, periodDelegationValue = 0,
                  periodUndelegationValue = 0\<rparr>"
  have h1: "[''val'' \<mapsto> ?st] (ev_validator ?ev) = Some ?st" by simp
  have h2: "ev_type ?ev = Debond" by simp
  have h3: "shares ?st < ev_shares ?ev" by simp
  have h4: "findHistoryEntryForEpoch (or_empty ([''val'' \<mapsto> [?h]] (ev_validator ?ev))) 1
      = Inr (Some ?h)"
    by (simp add: or_empty_def findHistoryEntryForEpoch_single)
  have v7: "calculateTotalValue 7 (Some ?h) = 14"
    by (simp add: calculateTotalValue_def bigint_div_def)
  have v3: "calculateTotalValue 3 (Some ?h) = 6"
    by (simp add: calculateTotalValue_def bigint_div_def)
  note t = debond_clamp_full_value [where validatorState = "[''val'' \<mapsto> ?st]" and ev = ?ev
      and state = ?st and validatorHistories = "[''val'' \<mapsto> [?h]]" and e = 1
      and historyEntry = "Some ?h", OF h1 h2 h3 h4]
  from t v7 v3 show ?thesis by simp
qed

section \<open>Properties of the sampling loop\<close>

lemma fold_emit_step_dom:
  "dom (snd (fold (emit_step startEpoch epochTimestamps validatorHistories sampleEpoch timestamp)
               validators (results, validatorState))) = dom validatorState"
proof (induction validators arbitrary: results validatorState)
  case Nil
  then show ?case by simp
next
  case (Cons v validators)
  obtain results' validatorState' where
    step: "emit_step startEpoch epochTimestamps validatorHistories sampleEpoch timestamp v
             (results, validatorState) = (results', validatorState')"
    by (cases "emit_step startEpoch epochTimestamps validatorHistories sampleEpoch timestamp v
             (results, validatorState)")
  have "dom validatorState' = dom validatorState"
    using emit_step_dom [of startEpoch epochTimestamps validatorHistories sampleEpoch timestamp v
        results validatorState] step by simp
  with Cons.IH [of results' validatorState'] show ?case by (simp add: step)
qed

lemma sample_pass_dom:
  "dom (snd (snd (sample_pass startEpoch epochTimestamps eventsByEpoch validators
                    validatorHistories sampleEpoch (results, lastProcessedEpoch, validatorState))))
     = dom validatorState"
proof (cases "or_empty (epochTimestamps sampleEpoch) = []")
  case True
  then show ?thesis by (simp add: sample_pass_def)
next
  case False
  obtain results' validatorState' where
    em: "fold (emit_step startEpoch epochTimestamps validatorHistories sampleEpoch
                        (or_empty (epochTimestamps sampleEpoch)))
                  validators
                  (results, fold (epoch_step eventsByEpoch validatorHistories)
                              [lastProcessedEpoch + 1..sampleEpoch] validatorState)
          = (results', validatorState')"
    by (cases "fold (emit_step startEpoch epochTimestamps validatorHistories sampleEpoch
                        (or_empty (epochTimestamps sampleEpoch)))
                  validators
                  (results, fold (epoch_step eventsByEpoch validatorHistories)
                              [lastProcessedEpoch + 1..sampleEpoch] validatorState)")
  have "dom validatorState' = dom (fold (epoch_step eventsByEpoch validatorHistories)
                              [lastProcessedEpoch + 1..sampleEpoch] validatorState)"
    using fold_emit_step_dom [of startEpoch epochTimestamps validatorHistories sampleEpoch
        "or_empty (epochTimestamps sampleEpoch)" validators results
        "fold (epoch_step eventsByEpoch validatorHistories)
                              [lastProcessedEpoch + 1..sampleEpoch] validatorState"] em
    by simp
  with False em show ?thesis by (simp add: sample_pass_def fold_epoch_step_dom)
qed

lemma process_epochs_fold:
  "set validators \<subseteq> dom validatorState \<Longrightarrow>
   process_epochs startEpoch epochTimestamps eventsByEpoch validators validatorHistories samples
       (results, lastProcessedEpoch, validatorState)
     = Inr (fold (sample_pass startEpoch epochTimestamps eventsByEpoch validators validatorHistories)
              samples (results, lastProcessedEpoch, validatorState))"
proof (induction samples arbitrary: results lastProcessedEpoch validatorState)
  case Nil
  then show ?case by simp
next
  case (Cons x samples)
  show ?case
  proof (cases "or_empty (epochTimestamps x) = []")
    case True
    with Cons show ?thesis by (simp add: sample_pass_def)
  next
    case False
    define vs1 where "vs1 = fold (epoch_step eventsByEpoch validatorHistories)
                              [lastProcessedEpoch + 1..x] validatorState"
    obtain results' validatorState' where
      em: "fold (emit_step startEpoch epochTimestamps validatorHistories x
                        (or_empty (epochTimestamps x))) validators (results, vs1)
          = (results', validatorState')"
      by (cases "fold (emit_step startEpoch epochTimestamps validatorHistories x
                        (or_empty (epochTimestamps x))) validators (results, vs1)")
    have d1: "set validators \<subseteq> dom vs1"
      using Cons.prems by (simp add: vs1_def fold_epoch_step_dom)
    have "dom validatorState' = dom vs1"
      using fold_emit_step_dom [of startEpoch epochTimestamps validatorHistories x
        "or_empty (epochTimestamps x)" validators results vs1] em by simp
    with d1 have d2: "set validators \<subseteq> dom validatorState'" by simp
    have pass: "sample_pass startEpoch epochTimestamps eventsByEpoch validators validatorHistories x
        (results, lastProcessedEpoch, validatorState) = (results', x, validatorState')"
      using False em by (simp add: sample_pass_def vs1_def)
    show ?thesis
      using False Cons.IH [OF d2, of results' x] em
      by (simp add: apply_epochs_fold vs1_def [symmetric] emit_rows_fold [OF d1] pass)
  qed
qed

lemma emit_step_cases:
  obtains (skip) "emit_step startEpoch epochTimestamps validatorHistories sampleEpoch timestamp w
                    (results, validatorState) = (results, validatorState)"
  | (row) state historyEntry where "validatorState w = Some state"
      "\<not> (shares state = 0 \<and> prevTotalValue state = 0)"
      "located (or_empty (validatorHistories w)) sampleEpoch = Some historyEntry"
      "emit_step startEpoch epochTimestamps validatorHistories sampleEpoch timestamp w
         (results, validatorState)
       = (results @ [row_of startEpoch epochTimestamps sampleEpoch timestamp w state historyEntry],
          validatorState(w \<mapsto> settle state historyEntry))"
proof (cases "validatorState w")
  case None
  then show ?thesis by (intro skip) (simp add: emit_step_def)
next
  case (Some state)
  show ?thesis
  proof (cases "shares state = 0 \<and> prevTotalValue state = 0")
    case True
    with Some show ?thesis by (intro skip) (simp add: emit_step_def)
  next
    case nz: False
    show ?thesis
    proof (cases "located (or_empty (validatorHistories w)) sampleEpoch")
      case None
      with Some nz show ?thesis by (intro skip) (simp add: emit_step_def)
    next
      case (Some historyEntry)
      with \<open>validatorState w = Some state\<close> nz show ?thesis
        by (intro row [of state historyEntry]) (simp_all add: emit_step_def)
    qed
  qed
qed

lemma row_of_fields:
  "validator (row_of startEpoch epochTimestamps sampleEpoch timestamp w state historyEntry) = w"
  "start_epoch (row_of startEpoch epochTimestamps sampleEpoch timestamp w state historyEntry) = startEpoch"
  "end_epoch (row_of startEpoch epochTimestamps sampleEpoch timestamp w state historyEntry) = sampleEpoch"
  "start_timestamp (row_of startEpoch epochTimestamps sampleEpoch timestamp w state historyEntry)
     = or_empty (epochTimestamps startEpoch)"
  "end_timestamp (row_of startEpoch epochTimestamps sampleEpoch timestamp w state historyEntry) = timestamp"
  by (simp_all add: row_of_def)

lemma emit_step_no_snapshot:
  "located (or_empty (validatorHistories v)) sampleEpoch = None \<Longrightarrow>
   emit_step startEpoch epochTimestamps validatorHistories sampleEpoch timestamp v
     (results, validatorState) = (results, validatorState)"
  by (auto simp: emit_step_def split: option.splits)

lemma emit_step_other:
  assumes "w \<noteq> v"
  shows "snd (emit_step startEpoch epochTimestamps validatorHistories sampleEpoch timestamp w
                (results, validatorState)) v = validatorState v"
    and "rows_of v (fst (emit_step startEpoch epochTimestamps validatorHistories sampleEpoch
                timestamp w (results, validatorState))) = rows_of v results"
  using assms
  by (cases rule: emit_step_cases [of startEpoch epochTimestamps validatorHistories sampleEpoch
        timestamp w results validatorState]; simp add: rows_of_def row_of_fields)+

lemma fold_emit_step_no_snapshot:
  assumes "located (or_empty (validatorHistories v)) sampleEpoch = None"
  shows "snd (fold (emit_step startEpoch epochTimestamps validatorHistories sampleEpoch timestamp)
                validators (results, validatorState)) v = validatorState v
       \<and> rows_of v (fst (fold (emit_step startEpoch epochTimestamps validatorHistories sampleEpoch
                timestamp) validators (results, validatorState))) = rows_of v results"
proof (induction validators arbitrary: results validatorState)
  case Nil
  then show ?case by simp
next
  case (Cons w validators)
  obtain results' validatorState' where
    step: "emit_step startEpoch epochTimestamps validatorHistories sampleEpoch timestamp w
             (results, validatorState) = (results', validatorState')"
    by (cases "emit_step startEpoch epochTimestamps validatorHistories sampleEpoch timestamp w
             (results, validatorState)")
  have "validatorState' v = validatorState v \<and> rows_of v results' = rows_of v results"
  proof (cases "w = v")
    case True
    then show ?thesis
      using emit_step_no_snapshot [where validatorHistories = validatorHistories and v = v
          and sampleEpoch = sampleEpoch and startEpoch = startEpoch
          and epochTimestamps = epochTimestamps and timestamp = timestamp
          and results = results and validatorState = validatorState] assms step
      by simp
  next
    case False
    then show ?thesis
      using emit_step_other [OF False, of startEpoch epochTimestamps validatorHistories
          sampleEpoch timestamp results validatorState] step by simp
  qed
  with Cons.IH [of results' validatorState'] show ?case by (simp add: step)
qed

text \<open>
  C8. At a sample epoch where no snapshot is located for a validator, the emit step pushes
  no row for that validator and leaves its state as it is (no advance of
  \<open>prevTotalValue\<close>, no reset of the period accumulators); the loop over the validators
  returns without an error, and the run goes on with the remaining samples.
\<close>

theorem missing_snapshot_skips_sample:
  assumes "set validators \<subseteq> dom validatorState"
    and "findHistoryEntryForEpoch (or_empty (validatorHistories v)) sampleEpoch = Inr None"
  shows "(\<forall>state. validatorState v = Some state \<longrightarrow>
            emit_validator startEpoch epochTimestamps validatorHistories sampleEpoch timestamp v
              (results, validatorState) = Inr (results, validatorState))
       \<and> (\<exists>results' validatorState'.
            emit_rows startEpoch epochTimestamps validatorHistories sampleEpoch timestamp validators
              (results, validatorState) = Inr (results', validatorState')
            \<and> validatorState' v = validatorState v
            \<and> filter (\<lambda>r. validator r = v) results' = filter (\<lambda>r. validator r = v) results)
       \<and> (or_empty (epochTimestamps sampleEpoch) \<noteq> [] \<longrightarrow>
            (\<exists>applied results' validatorState'.
               apply_epochs eventsByEpoch validatorHistories (lastProcessedEpoch + 1) sampleEpoch
                 validatorState = Inr applied
               \<and> process_epochs startEpoch epochTimestamps eventsByEpoch validators
                   validatorHistories (sampleEpoch # samples)
                   (results, lastProcessedEpoch, validatorState)
                 = process_epochs startEpoch epochTimestamps eventsByEpoch validators
                     validatorHistories samples (results', sampleEpoch, validatorState')
               \<and> validatorState' v = applied v
               \<and> filter (\<lambda>r. validator r = v) results' = filter (\<lambda>r. validator r = v) results))"
proof (intro conjI allI impI)
  have loc: "located (or_empty (validatorHistories v)) sampleEpoch = None"
    using assms(2) by (simp add: located_def)
  show "emit_validator startEpoch epochTimestamps validatorHistories sampleEpoch timestamp v
              (results, validatorState) = Inr (results, validatorState)"
    if "validatorState v = Some state" for state
    using that assms(2) by (simp add: emit_validator_def)
  show "\<exists>results' validatorState'.
            emit_rows startEpoch epochTimestamps validatorHistories sampleEpoch timestamp validators
              (results, validatorState) = Inr (results', validatorState')
            \<and> validatorState' v = validatorState v
            \<and> filter (\<lambda>r. validator r = v) results' = filter (\<lambda>r. validator r = v) results"
    using fold_emit_step_no_snapshot [where validatorHistories = validatorHistories and v = v
        and sampleEpoch = sampleEpoch and startEpoch = startEpoch
        and epochTimestamps = epochTimestamps and timestamp = timestamp
        and validators = validators and results = results and validatorState = validatorState] loc
    by (cases "fold (emit_step startEpoch epochTimestamps validatorHistories sampleEpoch timestamp)
                validators (results, validatorState)")
      (simp add: emit_rows_fold [OF assms(1)] rows_of_def)
  show "\<exists>applied results' validatorState'.
               apply_epochs eventsByEpoch validatorHistories (lastProcessedEpoch + 1) sampleEpoch
                 validatorState = Inr applied
               \<and> process_epochs startEpoch epochTimestamps eventsByEpoch validators
                   validatorHistories (sampleEpoch # samples)
                   (results, lastProcessedEpoch, validatorState)
                 = process_epochs startEpoch epochTimestamps eventsByEpoch validators
                     validatorHistories samples (results', sampleEpoch, validatorState')
               \<and> validatorState' v = applied v
               \<and> filter (\<lambda>r. validator r = v) results' = filter (\<lambda>r. validator r = v) results"
    if ts: "or_empty (epochTimestamps sampleEpoch) \<noteq> []"
  proof -
    define applied where "applied = fold (epoch_step eventsByEpoch validatorHistories)
        [lastProcessedEpoch + 1..sampleEpoch] validatorState"
    have d: "set validators \<subseteq> dom applied"
      using assms(1) by (simp add: applied_def fold_epoch_step_dom)
    obtain results' validatorState' where
      em: "fold (emit_step startEpoch epochTimestamps validatorHistories sampleEpoch
                   (or_empty (epochTimestamps sampleEpoch))) validators (results, applied)
           = (results', validatorState')"
      by (cases "fold (emit_step startEpoch epochTimestamps validatorHistories sampleEpoch
                   (or_empty (epochTimestamps sampleEpoch))) validators (results, applied)")
    have fr: "validatorState' v = applied v \<and> rows_of v results' = rows_of v results"
      using fold_emit_step_no_snapshot [where validatorHistories = validatorHistories and v = v
          and sampleEpoch = sampleEpoch and startEpoch = startEpoch
          and epochTimestamps = epochTimestamps
          and timestamp = "or_empty (epochTimestamps sampleEpoch)"
          and validators = validators and results = results and validatorState = applied] loc em
      by simp
    show ?thesis
      using ts fr em
      by (intro exI [of _ applied] exI [of _ results'] exI [of _ validatorState'])
        (simp add: apply_epochs_fold applied_def [symmetric] emit_rows_fold [OF d] rows_of_def)
  qed
qed

lemma fold_emit_step_rows:
  "\<exists>new. fst (fold (emit_step startEpoch epochTimestamps validatorHistories sampleEpoch timestamp)
                 validators (results, validatorState)) = results @ new
     \<and> (\<forall>r \<in> set new. start_epoch r = startEpoch
            \<and> start_timestamp r = or_empty (epochTimestamps startEpoch)
            \<and> end_epoch r = sampleEpoch \<and> end_timestamp r = timestamp
            \<and> validator r \<in> set validators)
     \<and> (distinct validators \<longrightarrow> length (rows_of v new) \<le> 1)"
proof (induction validators arbitrary: results validatorState)
  case Nil
  then show ?case by (simp add: rows_of_def)
next
  case (Cons w validators)
  obtain results' validatorState' where
    step: "emit_step startEpoch epochTimestamps validatorHistories sampleEpoch timestamp w
             (results, validatorState) = (results', validatorState')"
    by (cases "emit_step startEpoch epochTimestamps validatorHistories sampleEpoch timestamp w
             (results, validatorState)")
  have first: "\<exists>new0. results' = results @ new0 \<and> length new0 \<le> 1
      \<and> (\<forall>r \<in> set new0. start_epoch r = startEpoch
            \<and> start_timestamp r = or_empty (epochTimestamps startEpoch)
            \<and> end_epoch r = sampleEpoch \<and> end_timestamp r = timestamp \<and> validator r = w)"
  proof (cases rule: emit_step_cases [of startEpoch epochTimestamps validatorHistories sampleEpoch
        timestamp w results validatorState])
    case skip
    with step show ?thesis by (intro exI [of _ "[]"]) simp
  next
    case (row state historyEntry)
    with step show ?thesis
      by (intro exI [of _ "[row_of startEpoch epochTimestamps sampleEpoch timestamp w state
            historyEntry]"]) (simp add: row_of_fields)
  qed
  then obtain new0 where new0: "results' = results @ new0" "length new0 \<le> 1"
      "\<forall>r \<in> set new0. start_epoch r = startEpoch
            \<and> start_timestamp r = or_empty (epochTimestamps startEpoch)
            \<and> end_epoch r = sampleEpoch \<and> end_timestamp r = timestamp \<and> validator r = w"
    by blast
  from Cons.IH [of results' validatorState'] obtain new1 where
    new1: "fst (fold (emit_step startEpoch epochTimestamps validatorHistories sampleEpoch timestamp)
                 validators (results', validatorState')) = results' @ new1"
      "\<forall>r \<in> set new1. start_epoch r = startEpoch
            \<and> start_timestamp r = or_empty (epochTimestamps startEpoch)
            \<and> end_epoch r = sampleEpoch \<and> end_timestamp r = timestamp
            \<and> validator r \<in> set validators"
      "distinct validators \<longrightarrow> length (rows_of v new1) \<le> 1"
    by blast
  have len: "length (rows_of v (new0 @ new1)) \<le> 1" if d: "distinct (w # validators)"
  proof (cases "w = v")
    case True
    with d have "v \<notin> set validators" by simp
    with new1(2) have "rows_of v new1 = []" by (auto simp: rows_of_def filter_empty_conv)
    moreover have "length (rows_of v new0) \<le> length new0" by (simp add: rows_of_def)
    then have "length (rows_of v new0) \<le> 1" using new0(2) by simp
    moreover have "rows_of v (new0 @ new1) = rows_of v new0 @ rows_of v new1"
      by (simp add: rows_of_def)
    ultimately show ?thesis by simp
  next
    case False
    with new0(3) have "rows_of v new0 = []" by (auto simp: rows_of_def filter_empty_conv)
    with new1(3) d show ?thesis by (simp add: rows_of_def)
  qed
  show ?case
    using new0 new1 len
    by (intro exI [of _ "new0 @ new1"]) (auto simp: step)
qed

lemma fold_sample_pass_rows:
  assumes "sorted_wrt (<) samples" and "distinct validators"
    and "\<forall>r \<in> set results. start_epoch r = startEpoch
           \<and> start_timestamp r = or_empty (epochTimestamps startEpoch)"
    and "sorted_wrt (<) (map end_epoch (rows_of v results))"
    and "\<forall>r \<in> set (rows_of v results). \<forall>x \<in> set samples. end_epoch r < x"
  shows "(\<forall>r \<in> set (fst (fold (sample_pass startEpoch epochTimestamps eventsByEpoch validators
                validatorHistories) samples (results, lastProcessedEpoch, validatorState))).
            start_epoch r = startEpoch
            \<and> start_timestamp r = or_empty (epochTimestamps startEpoch))
       \<and> sorted_wrt (<) (map end_epoch (rows_of v
            (fst (fold (sample_pass startEpoch epochTimestamps eventsByEpoch validators
                validatorHistories) samples (results, lastProcessedEpoch, validatorState)))))"
  using assms
proof (induction samples arbitrary: results lastProcessedEpoch validatorState)
  case Nil
  then show ?case by simp
next
  case (Cons x samples)
  show ?case
  proof (cases "or_empty (epochTimestamps x) = []")
    case True
    have "\<forall>r \<in> set (rows_of v results). \<forall>y \<in> set samples. end_epoch r < y"
      using Cons.prems(5) by simp
    with Cons.IH [of results lastProcessedEpoch validatorState] Cons.prems True
    show ?thesis by (simp add: sample_pass_def)
  next
    case False
    define vs1 where "vs1 = fold (epoch_step eventsByEpoch validatorHistories)
                              [lastProcessedEpoch + 1..x] validatorState"
    obtain results' validatorState' where
      em: "fold (emit_step startEpoch epochTimestamps validatorHistories x
                        (or_empty (epochTimestamps x))) validators (results, vs1)
          = (results', validatorState')"
      by (cases "fold (emit_step startEpoch epochTimestamps validatorHistories x
                        (or_empty (epochTimestamps x))) validators (results, vs1)")
    have pass: "sample_pass startEpoch epochTimestamps eventsByEpoch validators validatorHistories x
        (results, lastProcessedEpoch, validatorState) = (results', x, validatorState')"
      using False em by (simp add: sample_pass_def vs1_def)
    from fold_emit_step_rows [of startEpoch epochTimestamps validatorHistories x
        "or_empty (epochTimestamps x)" validators results vs1 v] em
    obtain new where new: "results' = results @ new"
        "\<forall>r \<in> set new. start_epoch r = startEpoch
            \<and> start_timestamp r = or_empty (epochTimestamps startEpoch)
            \<and> end_epoch r = x"
        "length (rows_of v new) \<le> 1"
      using Cons.prems(2) by auto
    have p3: "\<forall>r \<in> set results'. start_epoch r = startEpoch
           \<and> start_timestamp r = or_empty (epochTimestamps startEpoch)"
      using Cons.prems(3) new(1,2) by auto
    have newv: "\<forall>r \<in> set (rows_of v new). end_epoch r = x"
      using new(2) by (auto simp: rows_of_def)
    have one: "sorted_wrt (<) (map end_epoch (rows_of v new))"
      using new(3) by (cases "rows_of v new") (auto simp: Suc_le_eq)
    have p4: "sorted_wrt (<) (map end_epoch (rows_of v results'))"
      using Cons.prems(4,5) newv one
      by (auto simp: new(1) rows_of_def sorted_wrt_append)
    have p5: "\<forall>r \<in> set (rows_of v results'). \<forall>y \<in> set samples. end_epoch r < y"
      using Cons.prems(1,5) newv by (auto simp: new(1) rows_of_def)
    have "sorted_wrt (<) samples" using Cons.prems(1) by simp
    from Cons.IH [OF this Cons.prems(2) p3 p4 p5, of x validatorState']
    show ?thesis by (simp add: pass)
  qed
qed

text \<open>
  C10. Every row a run emits carries the period's \<open>startEpoch\<close> as \<open>start_epoch\<close> and the
  timestamp recorded for \<open>startEpoch\<close> (empty when there is none) as \<open>start_timestamp\<close>;
  the rows of one validator appear in strictly ascending \<open>end_epoch\<close> order. The list
  \<open>validators\<close> comes from a \<open>Set\<close> and so has no repetitions, and every validator in it
  has been given a state (\<open>active_validators_distinct\<close> and \<open>initial_states_dom\<close> below, for
  the lists the source builds).
\<close>

theorem rows_start_and_order:
  assumes "distinct validators"
    and "set validators \<subseteq> dom validatorState"
    and "reward_rows granularity startEpoch endEpoch epochTimestamps eventsByEpoch validators
           validatorHistories validatorState = Inr results"
  shows "(\<forall>r \<in> set results. start_epoch r = startEpoch
            \<and> start_timestamp r = or_empty (epochTimestamps startEpoch))
       \<and> sorted_wrt (<) (map end_epoch (filter (\<lambda>r. validator r = v) results))"
proof -
  define final where "final = fold (sample_pass startEpoch epochTimestamps eventsByEpoch validators
      validatorHistories) (epochsToProcess granularity startEpoch endEpoch)
      ([], startEpoch, validatorState)"
  have "results = fst final"
    using assms(3) by (cases final) (simp add: reward_rows_def process_epochs_fold [OF assms(2)]
        final_def [symmetric])
  moreover have "(\<forall>r \<in> set (fst final). start_epoch r = startEpoch
            \<and> start_timestamp r = or_empty (epochTimestamps startEpoch))
       \<and> sorted_wrt (<) (map end_epoch (rows_of v (fst final)))"
    unfolding final_def
    by (intro fold_sample_pass_rows epochsToProcess_sorted assms(1)) (simp_all add: rows_of_def)
  ultimately show ?thesis by (simp add: rows_of_def)
qed

lemma same_shares_refl: "same_shares a a"
  by (simp add: same_shares_def)

lemma same_shares_trans: "same_shares a b \<Longrightarrow> same_shares b c \<Longrightarrow> same_shares a c"
  by (simp add: same_shares_def)

lemma event_step_sim:
  assumes "same_shares a b"
  shows "same_shares (event_step validatorHistories e ev a) (event_step validatorHistories e ev b)
       \<and> ledger_of (event_step validatorHistories e ev a) v
           - ledger_of (event_step validatorHistories e ev b) v
         = ledger_of a v - ledger_of b v"
proof (intro conjI)
  have eq: "map_option shares (a (ev_validator ev)) = map_option shares (b (ev_validator ev))"
    using assms by (simp add: same_shares_def)
  show "same_shares (event_step validatorHistories e ev a) (event_step validatorHistories e ev b)"
  proof (cases "a (ev_validator ev)")
    case None
    with eq have "b (ev_validator ev) = None" by simp
    with None assms show ?thesis by (simp add: event_step_def)
  next
    case (Some sa)
    with eq obtain sb where sb: "b (ev_validator ev) = Some sb" "shares sb = shares sa"
      by (cases "b (ev_validator ev)") auto
    with Some assms show ?thesis
      by (cases "ev_type ev") (auto simp: event_step_def same_shares_def event_update_def Let_def)
  qed
  show "ledger_of (event_step validatorHistories e ev a) v
           - ledger_of (event_step validatorHistories e ev b) v
         = ledger_of a v - ledger_of b v"
  proof (cases "a (ev_validator ev)")
    case None
    with eq have "b (ev_validator ev) = None" by simp
    with None show ?thesis by (simp add: event_step_def)
  next
    case (Some sa)
    with eq obtain sb where sb: "b (ev_validator ev) = Some sb" "shares sb = shares sa"
      by (cases "b (ev_validator ev)") auto
    with Some show ?thesis
      by (cases "ev_type ev")
        (auto simp: event_step_def ledger_of_def ledger_def event_update_def Let_def)
  qed
qed

lemma fold_event_step_sim:
  assumes "same_shares a b"
  shows "same_shares (fold (event_step validatorHistories e) events a)
           (fold (event_step validatorHistories e) events b)
       \<and> ledger_of (fold (event_step validatorHistories e) events a) v
           - ledger_of (fold (event_step validatorHistories e) events b) v
         = ledger_of a v - ledger_of b v"
  using assms
proof (induction events arbitrary: a b)
  case Nil
  then show ?case by simp
next
  case (Cons ev events)
  from event_step_sim [OF Cons.prems, of validatorHistories e ev v]
    Cons.IH [of "event_step validatorHistories e ev a" "event_step validatorHistories e ev b"]
  show ?case by simp
qed

lemma fold_epoch_step_sim:
  assumes "same_shares a b"
  shows "same_shares (fold (epoch_step eventsByEpoch validatorHistories) es a)
           (fold (epoch_step eventsByEpoch validatorHistories) es b)
       \<and> ledger_of (fold (epoch_step eventsByEpoch validatorHistories) es a) v
           - ledger_of (fold (epoch_step eventsByEpoch validatorHistories) es b) v
         = ledger_of a v - ledger_of b v"
  using assms
proof (induction es arbitrary: a b)
  case Nil
  then show ?case by simp
next
  case (Cons e es)
  from fold_event_step_sim [OF Cons.prems, of validatorHistories e "or_empty (eventsByEpoch e)" v]
    Cons.IH [of "epoch_step eventsByEpoch validatorHistories e a"
      "epoch_step eventsByEpoch validatorHistories e b"]
  show ?case by (simp add: epoch_step_def)
qed

lemma event_step_prev:
  "map_option prevTotalValue (event_step validatorHistories e ev a v) = map_option prevTotalValue (a v)"
  by (cases "ev_type ev") (auto simp: event_step_def event_update_def Let_def split: option.splits)

lemma fold_event_step_prev:
  "map_option prevTotalValue (fold (event_step validatorHistories e) events a v)
     = map_option prevTotalValue (a v)"
  by (induction events arbitrary: a) (simp_all add: event_step_prev)

lemma fold_epoch_step_prev:
  "map_option prevTotalValue (fold (epoch_step eventsByEpoch validatorHistories) es a v)
     = map_option prevTotalValue (a v)"
  by (induction es arbitrary: a) (simp_all add: epoch_step_def fold_event_step_prev)

lemma parse_reward: "parse_scaled ROSE_DECIMALS (toRose x 0) = x"
  using parse_toRose [of 0 x] by simp

lemma reward_sum_snoc:
  "reward_sum v (results @ [r])
     = reward_sum v results + (if validator r = v then parse_scaled ROSE_DECIMALS (rewards r) else 0)"
  by (simp add: reward_sum_def rows_of_def)

lemma emit_step_sim:
  "same_shares (snd (emit_step startEpoch epochTimestamps validatorHistories sampleEpoch timestamp w
                      (results, validatorState))) validatorState
   \<and> reward_sum v (fst (emit_step startEpoch epochTimestamps validatorHistories sampleEpoch timestamp w
                      (results, validatorState)))
     - ledger_of (snd (emit_step startEpoch epochTimestamps validatorHistories sampleEpoch timestamp w
                      (results, validatorState))) v
   = reward_sum v results - ledger_of validatorState v"
proof (intro conjI)
  show "same_shares (snd (emit_step startEpoch epochTimestamps validatorHistories sampleEpoch
      timestamp w (results, validatorState))) validatorState"
    by (cases rule: emit_step_cases [of startEpoch epochTimestamps validatorHistories sampleEpoch
        timestamp w results validatorState]) (auto simp: same_shares_def settle_def)
  show "reward_sum v (fst (emit_step startEpoch epochTimestamps validatorHistories sampleEpoch
      timestamp w (results, validatorState)))
     - ledger_of (snd (emit_step startEpoch epochTimestamps validatorHistories sampleEpoch timestamp w
                      (results, validatorState))) v
   = reward_sum v results - ledger_of validatorState v"
  proof (cases rule: emit_step_cases [of startEpoch epochTimestamps validatorHistories sampleEpoch
        timestamp w results validatorState])
    case skip
    then show ?thesis by simp
  next
    case (row state historyEntry)
    have rw: "parse_scaled ROSE_DECIMALS
        (rewards (row_of startEpoch epochTimestamps sampleEpoch timestamp w state historyEntry))
        = ledger (settle state historyEntry) - ledger state"
      by (simp add: row_of_def parse_reward ledger_def settle_def)
    show ?thesis
    proof (cases "w = v")
      case True
      with row rw show ?thesis
        by (simp add: reward_sum_snoc row_of_fields ledger_of_def)
    next
      case False
      with row show ?thesis
        by (simp add: reward_sum_snoc row_of_fields ledger_of_def)
    qed
  qed
qed

lemma fold_emit_step_sim:
  "same_shares (snd (fold (emit_step startEpoch epochTimestamps validatorHistories sampleEpoch
                      timestamp) validators (results, validatorState))) validatorState
   \<and> reward_sum v (fst (fold (emit_step startEpoch epochTimestamps validatorHistories sampleEpoch
                      timestamp) validators (results, validatorState)))
     - ledger_of (snd (fold (emit_step startEpoch epochTimestamps validatorHistories sampleEpoch
                      timestamp) validators (results, validatorState))) v
   = reward_sum v results - ledger_of validatorState v"
proof (induction validators arbitrary: results validatorState)
  case Nil
  then show ?case by (simp add: same_shares_refl)
next
  case (Cons w validators)
  obtain results' validatorState' where
    step: "emit_step startEpoch epochTimestamps validatorHistories sampleEpoch timestamp w
             (results, validatorState) = (results', validatorState')"
    by (cases "emit_step startEpoch epochTimestamps validatorHistories sampleEpoch timestamp w
             (results, validatorState)")
  from emit_step_sim [of startEpoch epochTimestamps validatorHistories sampleEpoch timestamp w
      results validatorState v] step
  have a: "same_shares validatorState' validatorState"
    and b: "reward_sum v results' - ledger_of validatorState' v
        = reward_sum v results - ledger_of validatorState v"
    by simp_all
  from Cons.IH [of results' validatorState'] a b show ?case
    by (auto simp: step intro: same_shares_trans)
qed

lemma fold_emit_step_settled:
  assumes "validatorState v = Some state" and "shares state \<noteq> 0"
    and "located (or_empty (validatorHistories v)) sampleEpoch = Some historyEntry"
    and "v \<in> set validators \<or> ledger state = calculateTotalValue (shares state) (Some historyEntry)"
  shows "ledger_of (snd (fold (emit_step startEpoch epochTimestamps validatorHistories sampleEpoch
                      timestamp) validators (results, validatorState))) v
         = calculateTotalValue (shares state) (Some historyEntry)"
  using assms
proof (induction validators arbitrary: results validatorState state)
  case Nil
  then show ?case by (simp add: ledger_of_def)
next
  case (Cons w validators)
  obtain results' validatorState' where
    step: "emit_step startEpoch epochTimestamps validatorHistories sampleEpoch timestamp w
             (results, validatorState) = (results', validatorState')"
    by (cases "emit_step startEpoch epochTimestamps validatorHistories sampleEpoch timestamp w
             (results, validatorState)")
  have "\<exists>state'. validatorState' v = Some state' \<and> shares state' = shares state
      \<and> (v \<in> set validators
          \<or> ledger state' = calculateTotalValue (shares state) (Some historyEntry))"
  proof (cases "w = v")
    case True
    have "validatorState' = validatorState(v \<mapsto> settle state historyEntry)"
      using step True Cons.prems(1,2,3) by (simp add: emit_step_def)
    then show ?thesis by (simp add: settle_def ledger_def)
  next
    case False
    have "validatorState' v = validatorState v"
      using emit_step_other(1) [OF False, of startEpoch epochTimestamps validatorHistories
          sampleEpoch timestamp results validatorState] step by simp
    with Cons.prems False show ?thesis by auto
  qed
  then obtain state' where st': "validatorState' v = Some state'" "shares state' = shares state"
      "v \<in> set validators \<or> ledger state' = calculateTotalValue (shares state) (Some historyEntry)"
    by blast
  have "ledger_of (snd (fold (emit_step startEpoch epochTimestamps validatorHistories sampleEpoch
                      timestamp) validators (results', validatorState'))) v
         = calculateTotalValue (shares state') (Some historyEntry)"
    using st' Cons.prems(2,3) by (intro Cons.IH) simp_all
  then show ?case by (simp add: step st'(2))
qed

lemma upto_join: "a \<le> b + 1 \<Longrightarrow> b \<le> c \<Longrightarrow> [a..b] @ [b + 1..c] = [a..c]"
proof (cases "a \<le> b")
  case True
  assume "b \<le> c"
  with True show ?thesis using upto_split2 [of a b c] by simp
next
  case False
  assume "a \<le> b + 1"
  with False have "a = b + 1" by simp
  then show ?thesis by simp
qed

lemma fold_sample_pass_ledger:
  assumes "sorted samples" and "\<forall>x \<in> set samples. lastProcessedEpoch \<le> x"
    and "same_shares validatorState reference"
  shows "case fold (sample_pass startEpoch epochTimestamps eventsByEpoch validators validatorHistories)
               samples (results, lastProcessedEpoch, validatorState) of
           (results', last', validatorState') \<Rightarrow>
             lastProcessedEpoch \<le> last'
             \<and> same_shares validatorState'
                  (fold (epoch_step eventsByEpoch validatorHistories)
                     [lastProcessedEpoch + 1..last'] reference)
             \<and> reward_sum v results'
                  - (ledger_of validatorState' v
                     - ledger_of (fold (epoch_step eventsByEpoch validatorHistories)
                                    [lastProcessedEpoch + 1..last'] reference) v)
                = reward_sum v results - (ledger_of validatorState v - ledger_of reference v)"
  using assms
proof (induction samples arbitrary: results lastProcessedEpoch validatorState reference)
  case Nil
  then show ?case by simp
next
  case (Cons x samples)
  have srt: "sorted samples" and xle: "\<forall>y \<in> set samples. x \<le> y"
    and lx: "lastProcessedEpoch \<le> x" and lle: "\<forall>y \<in> set samples. lastProcessedEpoch \<le> y"
    using Cons.prems(1,2) by simp_all
  show ?case
  proof (cases "or_empty (epochTimestamps x) = []")
    case True
    from Cons.IH [OF srt lle Cons.prems(3), of results] True
    show ?thesis by (simp add: sample_pass_def)
  next
    case False
    define vs1 where "vs1 = fold (epoch_step eventsByEpoch validatorHistories)
                              [lastProcessedEpoch + 1..x] validatorState"
    define vr1 where "vr1 = fold (epoch_step eventsByEpoch validatorHistories)
                              [lastProcessedEpoch + 1..x] reference"
    obtain results2 vs2 where
      em: "fold (emit_step startEpoch epochTimestamps validatorHistories x
                        (or_empty (epochTimestamps x))) validators (results, vs1)
          = (results2, vs2)"
      by (cases "fold (emit_step startEpoch epochTimestamps validatorHistories x
                        (or_empty (epochTimestamps x))) validators (results, vs1)")
    have pass: "sample_pass startEpoch epochTimestamps eventsByEpoch validators validatorHistories x
        (results, lastProcessedEpoch, validatorState) = (results2, x, vs2)"
      using False em by (simp add: sample_pass_def vs1_def)
    from fold_epoch_step_sim [OF Cons.prems(3), of eventsByEpoch validatorHistories
        "[lastProcessedEpoch + 1..x]" v]
    have s1: "same_shares vs1 vr1"
      and g1: "ledger_of vs1 v - ledger_of vr1 v = ledger_of validatorState v - ledger_of reference v"
      by (simp_all add: vs1_def vr1_def)
    from fold_emit_step_sim [of startEpoch epochTimestamps validatorHistories x
        "or_empty (epochTimestamps x)" validators results vs1 v] em
    have s2: "same_shares vs2 vs1"
      and g2: "reward_sum v results2 - ledger_of vs2 v = reward_sum v results - ledger_of vs1 v"
      by simp_all
    have s3: "same_shares vs2 vr1" using s2 s1 by (rule same_shares_trans)
    obtain results' last' validatorState' where
      fin: "fold (sample_pass startEpoch epochTimestamps eventsByEpoch validators validatorHistories)
               samples (results2, x, vs2) = (results', last', validatorState')"
      by (cases "fold (sample_pass startEpoch epochTimestamps eventsByEpoch validators
               validatorHistories) samples (results2, x, vs2)")
    from Cons.IH [OF srt xle s3, of results2] fin
    have i1: "x \<le> last'"
      and i2: "same_shares validatorState'
                  (fold (epoch_step eventsByEpoch validatorHistories) [x + 1..last'] vr1)"
      and i3: "reward_sum v results'
                  - (ledger_of validatorState' v
                     - ledger_of (fold (epoch_step eventsByEpoch validatorHistories)
                                    [x + 1..last'] vr1) v)
                = reward_sum v results2 - (ledger_of vs2 v - ledger_of vr1 v)"
      by simp_all
    have join: "fold (epoch_step eventsByEpoch validatorHistories) [x + 1..last'] vr1
        = fold (epoch_step eventsByEpoch validatorHistories) [lastProcessedEpoch + 1..last'] reference"
    proof -
      have "[lastProcessedEpoch + 1..x] @ [x + 1..last'] = [lastProcessedEpoch + 1..last']"
        using lx i1 by (intro upto_join) simp_all
      then have "fold (epoch_step eventsByEpoch validatorHistories) [lastProcessedEpoch + 1..last']
          reference = fold (epoch_step eventsByEpoch validatorHistories)
            ([lastProcessedEpoch + 1..x] @ [x + 1..last']) reference"
        by simp
      then show ?thesis by (simp add: vr1_def)
    qed
    have "lastProcessedEpoch \<le> last'" using lx i1 by simp
    moreover have "reward_sum v results'
                  - (ledger_of validatorState' v
                     - ledger_of (fold (epoch_step eventsByEpoch validatorHistories)
                                    [lastProcessedEpoch + 1..last'] reference) v)
                = reward_sum v results - (ledger_of validatorState v - ledger_of reference v)"
      using i3 g1 g2 by (simp add: join)
    ultimately show ?thesis using i2 by (simp add: pass fin join)
  qed
qed

lemma fold_sample_pass_final:
  assumes "or_empty (epochTimestamps x) \<noteq> []"
  shows "case fold (sample_pass startEpoch epochTimestamps eventsByEpoch validators validatorHistories)
               (xs @ [x]) acc of
           (results', last', validatorState') \<Rightarrow>
             last' = x
             \<and> (\<forall>state' historyEntry.
                  v \<in> set validators \<and> validatorState' v = Some state' \<and> shares state' \<noteq> 0
                  \<and> located (or_empty (validatorHistories v)) x = Some historyEntry
                  \<longrightarrow> ledger state' = calculateTotalValue (shares state') (Some historyEntry))"
proof -
  obtain results1 last1 vsb where
    before: "fold (sample_pass startEpoch epochTimestamps eventsByEpoch validators validatorHistories)
               xs acc = (results1, last1, vsb)"
    by (cases "fold (sample_pass startEpoch epochTimestamps eventsByEpoch validators
               validatorHistories) xs acc")
  define vs1 where "vs1 = fold (epoch_step eventsByEpoch validatorHistories) [last1 + 1..x] vsb"
  obtain results2 vs2 where
    em: "fold (emit_step startEpoch epochTimestamps validatorHistories x
                 (or_empty (epochTimestamps x))) validators (results1, vs1) = (results2, vs2)"
    by (cases "fold (emit_step startEpoch epochTimestamps validatorHistories x
                 (or_empty (epochTimestamps x))) validators (results1, vs1)")
  have pass: "fold (sample_pass startEpoch epochTimestamps eventsByEpoch validators
      validatorHistories) (xs @ [x]) acc = (results2, x, vs2)"
    using assms em by (simp add: before sample_pass_def vs1_def)
  have settled: "ledger state' = calculateTotalValue (shares state') (Some historyEntry)"
    if v: "v \<in> set validators" and st': "vs2 v = Some state'" and nz: "shares state' \<noteq> 0"
      and loc: "located (or_empty (validatorHistories v)) x = Some historyEntry"
    for state' historyEntry
  proof -
    have "same_shares vs2 vs1"
      using fold_emit_step_sim [of startEpoch epochTimestamps validatorHistories x
        "or_empty (epochTimestamps x)" validators results1 vs1 v] em by simp
    then have "map_option shares (vs2 v) = map_option shares (vs1 v)"
      unfolding same_shares_def by blast
    then obtain state1 where s1: "vs1 v = Some state1" "shares state1 = shares state'"
      using st' by (cases "vs1 v") auto
    have "ledger_of (snd (fold (emit_step startEpoch epochTimestamps validatorHistories x
                      (or_empty (epochTimestamps x))) validators (results1, vs1))) v
         = calculateTotalValue (shares state1) (Some historyEntry)"
      using s1 nz loc v
      by (intro fold_emit_step_settled [where validatorHistories = validatorHistories
            and sampleEpoch = x]) simp_all
    then show ?thesis using st' s1(2) by (simp add: em ledger_of_def)
  qed
  show ?thesis unfolding pass using settled by simp
qed

lemma epochsToProcess_from_start:
  assumes "s \<le> e" and "x \<in> set (epochsToProcess granularity s e)"
  shows "s \<le> x"
proof (cases "s = e")
  case True
  with assms(2) show ?thesis by (simp add: epochsToProcess_single)
next
  case False
  with assms(1) have "s < e" by simp
  from epochsToProcess_after_start [OF this assms(2)] show ?thesis by simp
qed

lemma reward_rows_total:
  assumes "startEpoch \<le> endEpoch"
    and "or_empty (epochTimestamps endEpoch) \<noteq> []"
    and "set validators \<subseteq> dom validatorState"
    and "v \<in> set validators"
    and "validatorState v = Some origin"
    and "apply_epochs eventsByEpoch validatorHistories (startEpoch + 1) endEpoch validatorState
           = Inr stateEnd"
    and "stateEnd v = Some closing"
    and "shares closing \<noteq> 0"
    and "findHistoryEntryForEpoch (or_empty (validatorHistories v)) endEpoch = Inr (Some historyEntry)"
  shows "\<exists>results. reward_rows granularity startEpoch endEpoch epochTimestamps eventsByEpoch
             validators validatorHistories validatorState = Inr results
           \<and> reward_sum v results
               = calculateTotalValue (shares closing) (Some historyEntry) - prevTotalValue origin
                 - periodDelegationValue closing + periodUndelegationValue closing"
proof -
  define samples where "samples = epochsToProcess granularity startEpoch endEpoch"
  have ne: "samples \<noteq> []" by (simp add: samples_def epochsToProcess_nonempty)
  have lst: "last samples = endEpoch" by (simp add: samples_def epochsToProcess_last)
  have split: "samples = butlast samples @ [endEpoch]"
    using ne lst append_butlast_last_id [of samples] by simp
  have srt: "sorted samples"
    using epochsToProcess_sorted [of granularity startEpoch endEpoch]
    by (simp add: samples_def strict_sorted_iff)
  have ge: "\<forall>x \<in> set samples. startEpoch \<le> x"
    using epochsToProcess_from_start [OF assms(1)] by (auto simp: samples_def)
  obtain results last' validatorState' where
    fin: "fold (sample_pass startEpoch epochTimestamps eventsByEpoch validators validatorHistories)
            samples ([], startEpoch, validatorState) = (results, last', validatorState')"
    by (cases "fold (sample_pass startEpoch epochTimestamps eventsByEpoch validators
            validatorHistories) samples ([], startEpoch, validatorState)")
  have rows: "reward_rows granularity startEpoch endEpoch epochTimestamps eventsByEpoch
             validators validatorHistories validatorState = Inr results"
    by (simp add: reward_rows_def process_epochs_fold [OF assms(3)] samples_def [symmetric] fin)
  have loc: "located (or_empty (validatorHistories v)) endEpoch = Some historyEntry"
    using assms(9) by (simp add: located_def)
  have endst: "stateEnd = fold (epoch_step eventsByEpoch validatorHistories)
      [startEpoch + 1..endEpoch] validatorState"
    using assms(6) by (simp add: apply_epochs_fold)
  from fold_sample_pass_final [where epochTimestamps = epochTimestamps and x = endEpoch
      and startEpoch = startEpoch and eventsByEpoch = eventsByEpoch and validators = validators
      and validatorHistories = validatorHistories and xs = "butlast samples"
      and acc = "([], startEpoch, validatorState)" and v = v] assms(2) split fin
  have l': "last' = endEpoch"
    and settled: "\<forall>state' h. v \<in> set validators \<and> validatorState' v = Some state'
        \<and> shares state' \<noteq> 0 \<and> located (or_empty (validatorHistories v)) endEpoch = Some h
        \<longrightarrow> ledger state' = calculateTotalValue (shares state') (Some h)"
    by simp_all
  from fold_sample_pass_ledger [where samples = samples and lastProcessedEpoch = startEpoch
      and validatorState = validatorState and reference = validatorState
      and startEpoch = startEpoch and epochTimestamps = epochTimestamps
      and eventsByEpoch = eventsByEpoch and validators = validators
      and validatorHistories = validatorHistories and results = "[]" and v = v,
      OF srt ge same_shares_refl] fin
  have same: "same_shares validatorState' stateEnd"
    and sum: "reward_sum v results - (ledger_of validatorState' v - ledger_of stateEnd v)
        = reward_sum v []"
    by (simp_all add: l' endst)
  from same have "map_option shares (validatorState' v) = map_option shares (stateEnd v)"
    unfolding same_shares_def by blast
  then obtain state' where st': "validatorState' v = Some state'" "shares state' = shares closing"
    using assms(7) by (cases "validatorState' v") auto
  have led: "ledger state' = calculateTotalValue (shares closing) (Some historyEntry)"
    using settled st' assms(4,8) loc by auto
  have "map_option prevTotalValue (stateEnd v) = map_option prevTotalValue (validatorState v)"
    unfolding endst by (rule fold_epoch_step_prev)
  then have prev: "prevTotalValue closing = prevTotalValue origin"
    using assms(5,7) by simp
  have "reward_sum v results = ledger state' - ledger closing"
    using sum st' assms(7) by (simp add: ledger_of_def reward_sum_def rows_of_def)
  then have "reward_sum v results
      = calculateTotalValue (shares closing) (Some historyEntry) - prevTotalValue origin
        - periodDelegationValue closing + periodUndelegationValue closing"
    using led prev by (simp add: ledger_def)
  with rows show ?thesis by blast
qed

text \<open>
  C1 (amended). Let a validator in the list still hold shares once the period's events
  have been applied (\<open>closing\<close> is its state after \<open>apply_epochs\<close> over the whole period,
  with no emission), let \<open>endEpoch\<close> have a timestamp and a located snapshot. Then the
  exact integer sum of the \<open>rewards\<close> of its rows under \<open>"month"\<close> equals the sum under
  \<open>"year"\<close>, and both equal the final total value less the initial total value, less the
  value of the period's delegations, plus the value of the period's undelegations.
\<close>

theorem reconciliation_month_year:
  assumes "startEpoch \<le> endEpoch"
    and "or_empty (epochTimestamps endEpoch) \<noteq> []"
    and "set validators \<subseteq> dom validatorState"
    and "v \<in> set validators"
    and "validatorState v = Some origin"
    and "apply_epochs eventsByEpoch validatorHistories (startEpoch + 1) endEpoch validatorState
           = Inr stateEnd"
    and "stateEnd v = Some closing"
    and "shares closing \<noteq> 0"
    and "findHistoryEntryForEpoch (or_empty (validatorHistories v)) endEpoch = Inr (Some historyEntry)"
  shows "reward_total ''month'' startEpoch endEpoch epochTimestamps eventsByEpoch validators
           validatorHistories validatorState v
         = reward_total ''year'' startEpoch endEpoch epochTimestamps eventsByEpoch validators
           validatorHistories validatorState v
       \<and> reward_total ''year'' startEpoch endEpoch epochTimestamps eventsByEpoch validators
           validatorHistories validatorState v
         = Inr (calculateTotalValue (shares closing) (Some historyEntry) - prevTotalValue origin
                 - periodDelegationValue closing + periodUndelegationValue closing)"
proof -
  have "\<exists>results. reward_rows ''month'' startEpoch endEpoch epochTimestamps eventsByEpoch
             validators validatorHistories validatorState = Inr results
           \<and> reward_sum v results
               = calculateTotalValue (shares closing) (Some historyEntry) - prevTotalValue origin
                 - periodDelegationValue closing + periodUndelegationValue closing"
    by (rule reward_rows_total; fact assms)
  moreover have "\<exists>results. reward_rows ''year'' startEpoch endEpoch epochTimestamps eventsByEpoch
             validators validatorHistories validatorState = Inr results
           \<and> reward_sum v results
               = calculateTotalValue (shares closing) (Some historyEntry) - prevTotalValue origin
                 - periodDelegationValue closing + periodUndelegationValue closing"
    by (rule reward_rows_total; fact assms)
  ultimately show ?thesis by (auto simp: reward_total_def)
qed

lemma located_pair:
  "epoch h1 < epoch h2 \<Longrightarrow>
   located [h1, h2] e = (if epoch h2 \<le> e then Some h2 else if epoch h1 \<le> e then Some h1 else None)"
  by (simp add: located_def findHistoryEntryForEpoch_def bsearch_loop.simps [of _ _ 0 1]
      bsearch_loop.simps [of _ _ 1 1] bsearch_loop.simps [of _ _ 0 "-1"]
      bsearch_loop.simps [of _ _ 0 0] bsearch_loop.simps [of _ _ 1 0]
      bsearch_loop.simps [of _ _ 2 1] Let_def)

lemma samples_month_10_12: "epochsToProcess ''month'' 10 12 = [11, 12]"
  by (simp add: epochsToProcess_def sample_step_def month_loop.simps Let_def)

lemma samples_year_10_12: "epochsToProcess ''year'' 10 12 = [12]"
  by (simp add: epochsToProcess_def)

lemma rewards_row_of:
  "parse_scaled ROSE_DECIMALS
     (rewards (row_of startEpoch epochTimestamps sampleEpoch timestamp w state historyEntry))
   = calculateTotalValue (shares state) (Some historyEntry) - prevTotalValue state
     - periodDelegationValue state + periodUndelegationValue state"
  by (simp add: row_of_def parse_reward)

lemma calculateTotalValue_Some:
  "calculateTotalValue n (Some \<lparr>epoch = e, active_balance = Some b, active_shares = Some s\<rparr>)
     = (if s = 0 then 0 else bigint_div (n * b) s)"
  by (simp add: calculateTotalValue_def)

lemma exited_position_month:
  "reward_total ''month'' 10 12 (\<lambda>e. Some ''t'')
     [12 \<mapsto> [\<lparr>ev_type = Debond, ev_validator = ''val'', ev_shares = 100, ev_amount = 200\<rparr>]]
     [''val'']
     [''val'' \<mapsto> [\<lparr>epoch = 11, active_balance = Some 100, active_shares = Some 100\<rparr>,
                  \<lparr>epoch = 12, active_balance = Some 200, active_shares = Some 100\<rparr>]]
     [''val'' \<mapsto> initial_state 100 None] ''val'' = Inr 200"
proof -
  have d: "set [''val''] \<subseteq> dom [''val'' \<mapsto> initial_state 100 None]" by simp
  show ?thesis
    unfolding reward_total_def reward_rows_def process_epochs_fold [OF d] samples_month_10_12
    by (simp add: sample_pass_def emit_step_def epoch_step_def event_step_def event_update_def or_empty_def
        located_pair initial_state_def calculateTotalValue_None calculateTotalValue_Some
        bigint_div_def settle_def reward_sum_def rows_of_def row_of_fields rewards_row_of Let_def)
qed

lemma exited_position_year:
  "reward_rows ''year'' 10 12 (\<lambda>e. Some ''t'')
     [12 \<mapsto> [\<lparr>ev_type = Debond, ev_validator = ''val'', ev_shares = 100, ev_amount = 200\<rparr>]]
     [''val'']
     [''val'' \<mapsto> [\<lparr>epoch = 11, active_balance = Some 100, active_shares = Some 100\<rparr>,
                  \<lparr>epoch = 12, active_balance = Some 200, active_shares = Some 100\<rparr>]]
     [''val'' \<mapsto> initial_state 100 None] = Inr []"
proof -
  have d: "set [''val''] \<subseteq> dom [''val'' \<mapsto> initial_state 100 None]" by simp
  show ?thesis
    unfolding reward_rows_def process_epochs_fold [OF d] samples_year_10_12
    by (simp add: sample_pass_def emit_step_def epoch_step_def event_step_def event_update_def or_empty_def
        located_pair initial_state_def calculateTotalValue_None calculateTotalValue_Some
        bigint_div_def settle_def Let_def upto_rec1)
qed

lemma growing_position_year:
  "reward_total ''year'' 10 12 (\<lambda>e. Some ''t'')
     [11 \<mapsto> [\<lparr>ev_type = Add, ev_validator = ''val'', ev_shares = 50, ev_amount = 50\<rparr>]]
     [''val'']
     [''val'' \<mapsto> [\<lparr>epoch = 10, active_balance = Some 100, active_shares = Some 100\<rparr>,
                  \<lparr>epoch = 12, active_balance = Some 200, active_shares = Some 100\<rparr>]]
     [''val'' \<mapsto> initial_state 100
        (Some \<lparr>epoch = 10, active_balance = Some 100, active_shares = Some 100\<rparr>)] ''val''
   = Inr 150"
proof -
  have d: "set [''val''] \<subseteq> dom [''val'' \<mapsto> initial_state 100
        (Some \<lparr>epoch = 10, active_balance = Some 100, active_shares = Some 100\<rparr>)]" by simp
  show ?thesis
    unfolding reward_total_def reward_rows_def process_epochs_fold [OF d] samples_year_10_12
    by (simp add: sample_pass_def emit_step_def epoch_step_def event_step_def event_update_def
        or_empty_def located_pair initial_state_def calculateTotalValue_None
        calculateTotalValue_Some bigint_div_def settle_def reward_sum_def rows_of_def
        row_of_fields rewards_row_of Let_def upto_rec1)
qed

text \<open>
  C1 as stated fails twice. A validator whose position is fully debonded at the period end
  and whose initial value is zero gets no row under \<open>"year"\<close> (the row is skipped when
  \<open>shares\<close> and \<open>prevTotalValue\<close> are both zero) while its \<open>"month"\<close> rows sum to 200. And
  with an Add event in the period the yearly reward (150) is not the final total value
  less the initial one (300 - 100).
\<close>

theorem reconciliation_counterexample:
  "reward_total ''month'' 10 12 (\<lambda>e. Some ''t'')
     [12 \<mapsto> [\<lparr>ev_type = Debond, ev_validator = ''val'', ev_shares = 100, ev_amount = 200\<rparr>]]
     [''val'']
     [''val'' \<mapsto> [\<lparr>epoch = 11, active_balance = Some 100, active_shares = Some 100\<rparr>,
                  \<lparr>epoch = 12, active_balance = Some 200, active_shares = Some 100\<rparr>]]
     [''val'' \<mapsto> initial_state 100 None] ''val'' = Inr 200
   \<and> reward_rows ''year'' 10 12 (\<lambda>e. Some ''t'')
     [12 \<mapsto> [\<lparr>ev_type = Debond, ev_validator = ''val'', ev_shares = 100, ev_amount = 200\<rparr>]]
     [''val'']
     [''val'' \<mapsto> [\<lparr>epoch = 11, active_balance = Some 100, active_shares = Some 100\<rparr>,
                  \<lparr>epoch = 12, active_balance = Some 200, active_shares = Some 100\<rparr>]]
     [''val'' \<mapsto> initial_state 100 None] = Inr []
   \<and> reward_total ''year'' 10 12 (\<lambda>e. Some ''t'')
     [12 \<mapsto> [\<lparr>ev_type = Debond, ev_validator = ''val'', ev_shares = 100, ev_amount = 200\<rparr>]]
     [''val'']
     [''val'' \<mapsto> [\<lparr>epoch = 11, active_balance = Some 100, active_shares = Some 100\<rparr>,
                  \<lparr>epoch = 12, active_balance = Some 200, active_shares = Some 100\<rparr>]]
     [''val'' \<mapsto> initial_state 100 None] ''val'' = Inr 0
   \<and> reward_total ''year'' 10 12 (\<lambda>e. Some ''t'')
     [11 \<mapsto> [\<lparr>ev_type = Add, ev_validator = ''val'', ev_shares = 50, ev_amount = 50\<rparr>]]
     [''val'']
     [''val'' \<mapsto> [\<lparr>epoch = 10, active_balance = Some 100, active_shares = Some 100\<rparr>,
                  \<lparr>epoch = 12, active_balance = Some 200, active_shares = Some 100\<rparr>]]
     [''val'' \<mapsto> initial_state 100
        (Some \<lparr>epoch = 10, active_balance = Some 100, active_shares = Some 100\<rparr>)] ''val''
     = Inr 150
   \<and> calculateTotalValue 150 (Some \<lparr>epoch = 12, active_balance = Some 200, active_shares = Some 100\<rparr>)
     - calculateTotalValue 100 (Some \<lparr>epoch = 10, active_balance = Some 100, active_shares = Some 100\<rparr>)
     = 200"
proof -
  have "reward_total ''year'' 10 12 (\<lambda>e. Some ''t'')
     [12 \<mapsto> [\<lparr>ev_type = Debond, ev_validator = ''val'', ev_shares = 100, ev_amount = 200\<rparr>]]
     [''val'']
     [''val'' \<mapsto> [\<lparr>epoch = 11, active_balance = Some 100, active_shares = Some 100\<rparr>,
                  \<lparr>epoch = 12, active_balance = Some 200, active_shares = Some 100\<rparr>]]
     [''val'' \<mapsto> initial_state 100 None] ''val'' = Inr 0"
    by (simp add: reward_total_def exited_position_year reward_sum_def rows_of_def)
  moreover have "calculateTotalValue 150
        (Some \<lparr>epoch = 12, active_balance = Some 200, active_shares = Some 100\<rparr>)
     - calculateTotalValue 100
        (Some \<lparr>epoch = 10, active_balance = Some 100, active_shares = Some 100\<rparr>) = 200"
    by (simp add: calculateTotalValue_Some bigint_div_def)
  ultimately show ?thesis
    using exited_position_month exited_position_year growing_position_year by blast
qed

theorem reconciliation_month_year_witness:
  "reward_total ''month'' 10 12 (\<lambda>e. Some ''t'')
     [11 \<mapsto> [\<lparr>ev_type = Add, ev_validator = ''val'', ev_shares = 50, ev_amount = 50\<rparr>]]
     [''val'']
     [''val'' \<mapsto> [\<lparr>epoch = 10, active_balance = Some 100, active_shares = Some 100\<rparr>,
                  \<lparr>epoch = 12, active_balance = Some 200, active_shares = Some 100\<rparr>]]
     [''val'' \<mapsto> initial_state 100
        (Some \<lparr>epoch = 10, active_balance = Some 100, active_shares = Some 100\<rparr>)] ''val''
     = Inr 150
   \<and> reward_total ''year'' 10 12 (\<lambda>e. Some ''t'')
     [11 \<mapsto> [\<lparr>ev_type = Add, ev_validator = ''val'', ev_shares = 50, ev_amount = 50\<rparr>]]
     [''val'']
     [''val'' \<mapsto> [\<lparr>epoch = 10, active_balance = Some 100, active_shares = Some 100\<rparr>,
                  \<lparr>epoch = 12, active_balance = Some 200, active_shares = Some 100\<rparr>]]
     [''val'' \<mapsto> initial_state 100
        (Some \<lparr>epoch = 10, active_balance = Some 100, active_shares = Some 100\<rparr>)] ''val''
     = Inr 150"
proof -
  let ?h10 = "\<lparr>epoch = 10, active_balance = Some 100, active_shares = Some 100\<rparr>"
  let ?h12 = "\<lparr>epoch = 12, active_balance = Some 200, active_shares = Some 100\<rparr>"
  let ?E = "[11 \<mapsto> [\<lparr>ev_type = Add, ev_validator = ''val'', ev_shares = 50, ev_amount = 50\<rparr>]]"
  let ?H = "[''val'' \<mapsto> [?h10, ?h12]]"
  let ?vs = "[''val'' \<mapsto> initial_state 100 (Some ?h10)]"
  let ?closing = "\<lparr>shares = 150, prevTotalValue = 100, periodDelegationValue = 50,
      periodUndelegationValue = 0\<rparr>"
  have h1: "(10::int) \<le> 12" by simp
  have h2: "or_empty ((\<lambda>e::int. Some ''t'') 12) \<noteq> []" by (simp add: or_empty_def)
  have h3: "set [''val''] \<subseteq> dom ?vs" by simp
  have h4: "''val'' \<in> set [''val'']" by simp
  have h5: "?vs ''val'' = Some (initial_state 100 (Some ?h10))" by simp
  have h6: "apply_epochs ?E ?H (10 + 1) 12 ?vs = Inr [''val'' \<mapsto> ?closing]"
    unfolding apply_epochs_fold
    by (simp add: upto_rec1 epoch_step_def event_step_def event_update_def or_empty_def
        located_pair initial_state_def calculateTotalValue_Some bigint_div_def Let_def)
  have h7: "[''val'' \<mapsto> ?closing] ''val'' = Some ?closing" by simp
  have h8: "shares ?closing \<noteq> 0" by simp
  have h9: "findHistoryEntryForEpoch (or_empty (?H ''val'')) 12 = Inr (Some ?h12)"
    using located_pair [of ?h10 ?h12 12]
    by (simp add: or_empty_def findHistoryEntryForEpoch_located)
  note t = reconciliation_month_year [where startEpoch = 10 and endEpoch = 12
      and epochTimestamps = "\<lambda>e. Some ''t''" and validators = "[''val'']"
      and validatorState = ?vs and v = "''val''" and eventsByEpoch = ?E
      and validatorHistories = ?H and origin = "initial_state 100 (Some ?h10)"
      and stateEnd = "[''val'' \<mapsto> ?closing]" and closing = ?closing and historyEntry = ?h12,
      OF h1 h2 h3 h4 h5 h6 h7 h8 h9]
  have v: "calculateTotalValue (shares ?closing) (Some ?h12)
      - prevTotalValue (initial_state 100 (Some ?h10))
      - periodDelegationValue ?closing + periodUndelegationValue ?closing = 150"
    by (simp add: calculateTotalValue_Some bigint_div_def initial_state_def)
  from t show ?thesis unfolding v by simp
qed

theorem missing_snapshot_skips_sample_witness:
  "emit_rows 10 (\<lambda>e. Some ''t'')
     [''val'' \<mapsto> [\<lparr>epoch = 11, active_balance = Some 100, active_shares = Some 100\<rparr>]]
     10 ''t'' [''val'']
     ([], [''val'' \<mapsto> \<lparr>shares = 100, prevTotalValue = 0, periodDelegationValue = 7,
                        periodUndelegationValue = 3\<rparr>])
   = Inr ([], [''val'' \<mapsto> \<lparr>shares = 100, prevTotalValue = 0, periodDelegationValue = 7,
                        periodUndelegationValue = 3\<rparr>])"
proof -
  let ?H = "[''val'' \<mapsto> [\<lparr>epoch = 11, active_balance = Some 100, active_shares = Some 100\<rparr>]]"
  let ?st = "\<lparr>shares = 100, prevTotalValue = 0, periodDelegationValue = 7,
                        periodUndelegationValue = 3\<rparr>"
  have h1: "set [''val''] \<subseteq> dom [''val'' \<mapsto> ?st]" by simp
  have h2: "findHistoryEntryForEpoch (or_empty (?H ''val'')) 10 = Inr None"
    by (simp add: or_empty_def findHistoryEntryForEpoch_single)
  note t = missing_snapshot_skips_sample [where validators = "[''val'']"
      and validatorState = "[''val'' \<mapsto> ?st]" and validatorHistories = ?H and v = "''val''"
      and sampleEpoch = 10 and startEpoch = 10 and epochTimestamps = "\<lambda>e. Some ''t''"
      and timestamp = "''t''" and results = "[]", OF h1 h2]
  from t have "emit_validator 10 (\<lambda>e. Some ''t'') ?H 10 ''t'' ''val'' ([], [''val'' \<mapsto> ?st])
      = Inr ([], [''val'' \<mapsto> ?st])"
    by simp
  then show ?thesis by simp
qed

lemma growing_position_month_rows:
  "reward_rows ''month'' 10 12 (\<lambda>e. Some ''t'')
     [11 \<mapsto> [\<lparr>ev_type = Add, ev_validator = ''val'', ev_shares = 50, ev_amount = 50\<rparr>]]
     [''val'']
     [''val'' \<mapsto> [\<lparr>epoch = 10, active_balance = Some 100, active_shares = Some 100\<rparr>,
                  \<lparr>epoch = 12, active_balance = Some 200, active_shares = Some 100\<rparr>]]
     [''val'' \<mapsto> initial_state 100
        (Some \<lparr>epoch = 10, active_balance = Some 100, active_shares = Some 100\<rparr>)]
   = Inr [row_of 10 (\<lambda>e. Some ''t'') 11 ''t'' ''val''
            \<lparr>shares = 150, prevTotalValue = 100, periodDelegationValue = 50,
              periodUndelegationValue = 0\<rparr>
            \<lparr>epoch = 10, active_balance = Some 100, active_shares = Some 100\<rparr>,
          row_of 10 (\<lambda>e. Some ''t'') 12 ''t'' ''val''
            \<lparr>shares = 150, prevTotalValue = 150, periodDelegationValue = 0,
              periodUndelegationValue = 0\<rparr>
            \<lparr>epoch = 12, active_balance = Some 200, active_shares = Some 100\<rparr>]"
proof -
  have d: "set [''val''] \<subseteq> dom [''val'' \<mapsto> initial_state 100
        (Some \<lparr>epoch = 10, active_balance = Some 100, active_shares = Some 100\<rparr>)]" by simp
  show ?thesis
    unfolding reward_rows_def process_epochs_fold [OF d] samples_month_10_12
    by (simp add: sample_pass_def emit_step_def epoch_step_def event_step_def event_update_def
        or_empty_def located_pair initial_state_def calculateTotalValue_None
        calculateTotalValue_Some bigint_div_def settle_def Let_def upto_rec1)
qed

theorem rows_start_and_order_witness:
  "map start_epoch
     [row_of 10 (\<lambda>e. Some ''t'') 11 ''t'' ''val''
        \<lparr>shares = 150, prevTotalValue = 100, periodDelegationValue = 50,
          periodUndelegationValue = 0\<rparr>
        \<lparr>epoch = 10, active_balance = Some 100, active_shares = Some 100\<rparr>,
      row_of 10 (\<lambda>e. Some ''t'') 12 ''t'' ''val''
        \<lparr>shares = 150, prevTotalValue = 150, periodDelegationValue = 0,
          periodUndelegationValue = 0\<rparr>
        \<lparr>epoch = 12, active_balance = Some 200, active_shares = Some 100\<rparr>] = [10, 10]
   \<and> sorted_wrt (<) (map end_epoch (filter (\<lambda>r. validator r = ''val'')
     [row_of 10 (\<lambda>e. Some ''t'') 11 ''t'' ''val''
        \<lparr>shares = 150, prevTotalValue = 100, periodDelegationValue = 50,
          periodUndelegationValue = 0\<rparr>
        \<lparr>epoch = 10, active_balance = Some 100, active_shares = Some 100\<rparr>,
      row_of 10 (\<lambda>e. Some ''t'') 12 ''t'' ''val''
        \<lparr>shares = 150, prevTotalValue = 150, periodDelegationValue = 0,
          periodUndelegationValue = 0\<rparr>
        \<lparr>epoch = 12, active_balance = Some 200, active_shares = Some 100\<rparr>]))
   \<and> reward_rows ''month'' 10 12 (\<lambda>e. Some ''t'')
     [11 \<mapsto> [\<lparr>ev_type = Add, ev_validator = ''val'', ev_shares = 50, ev_amount = 50\<rparr>]]
     [''val'']
     [''val'' \<mapsto> [\<lparr>epoch = 10, active_balance = Some 100, active_shares = Some 100\<rparr>,
                  \<lparr>epoch = 12, active_balance = Some 200, active_shares = Some 100\<rparr>]]
     [''val'' \<mapsto> initial_state 100
        (Some \<lparr>epoch = 10, active_balance = Some 100, active_shares = Some 100\<rparr>)]
   = Inr [row_of 10 (\<lambda>e. Some ''t'') 11 ''t'' ''val''
            \<lparr>shares = 150, prevTotalValue = 100, periodDelegationValue = 50,
              periodUndelegationValue = 0\<rparr>
            \<lparr>epoch = 10, active_balance = Some 100, active_shares = Some 100\<rparr>,
          row_of 10 (\<lambda>e. Some ''t'') 12 ''t'' ''val''
            \<lparr>shares = 150, prevTotalValue = 150, periodDelegationValue = 0,
              periodUndelegationValue = 0\<rparr>
            \<lparr>epoch = 12, active_balance = Some 200, active_shares = Some 100\<rparr>]"
proof -
  have h1: "distinct [''val'']" by simp
  have h2: "set [''val''] \<subseteq> dom [''val'' \<mapsto> initial_state 100
        (Some \<lparr>epoch = 10, active_balance = Some 100, active_shares = Some 100\<rparr>)]" by simp
  note t = rows_start_and_order [OF h1 h2 growing_position_month_rows, of "''val''"]
  from t have "sorted_wrt (<) (map end_epoch (filter (\<lambda>r. validator r = ''val'')
     [row_of 10 (\<lambda>e. Some ''t'') 11 ''t'' ''val''
        \<lparr>shares = 150, prevTotalValue = 100, periodDelegationValue = 50,
          periodUndelegationValue = 0\<rparr>
        \<lparr>epoch = 10, active_balance = Some 100, active_shares = Some 100\<rparr>,
      row_of 10 (\<lambda>e. Some ''t'') 12 ''t'' ''val''
        \<lparr>shares = 150, prevTotalValue = 150, periodDelegationValue = 0,
          periodUndelegationValue = 0\<rparr>
        \<lparr>epoch = 12, active_balance = Some 200, active_shares = Some 100\<rparr>]))"
    by blast
  moreover from t have "map start_epoch
     [row_of 10 (\<lambda>e. Some ''t'') 11 ''t'' ''val''
        \<lparr>shares = 150, prevTotalValue = 100, periodDelegationValue = 50,
          periodUndelegationValue = 0\<rparr>
        \<lparr>epoch = 10, active_balance = Some 100, active_shares = Some 100\<rparr>,
      row_of 10 (\<lambda>e. Some ''t'') 12 ''t'' ''val''
        \<lparr>shares = 150, prevTotalValue = 150, periodDelegationValue = 0,
          periodUndelegationValue = 0\<rparr>
        \<lparr>epoch = 12, active_balance = Some 200, active_shares = Some 100\<rparr>] = [10, 10]"
    by simp
  ultimately show ?thesis using growing_position_month_rows by blast
qed

section \<open>Properties of the paginated fetch\<close>

lemma offset_at_Suc: "offset_at get (Suc i) = offset_at get i + length (page_at get i)"
  by (simp add: page_at_def split: sum.splits)

lemma paginated_loop_unroll:
  assumes "\<forall>i < k. (\<exists>response. get i (offset_at get i) = Inr response) \<and> \<not> stop_at get limit i"
  shows "paginated_loop get limit 0 0 [] False
     = paginated_loop get limit k (offset_at get k) (concat (map (page_at get) [0..<k]))
         (list_ex (clipped_at get) [0..<k])"
  using assms
proof (induction k)
  case 0
  then show ?case by simp
next
  case (Suc k)
  from Suc.prems obtain response where r: "get k (offset_at get k) = Inr response"
    and ns: "\<not> stop_at get limit k" by auto
  have pg: "page_at get k = or_empty (page_items response)"
    and tot: "total_at get k = or_zero (total_count response)"
    and cl: "clipped_at get k = is_total_count_clipped response"
    using r by (simp_all add: page_at_def total_at_def clipped_at_def)
  have "paginated_loop get limit 0 0 [] False
      = paginated_loop get limit k (offset_at get k) (concat (map (page_at get) [0..<k]))
          (list_ex (clipped_at get) [0..<k])"
    using Suc by simp
  also have "\<dots> = paginated_loop get limit (k + 1) (offset_at get k + length (page_at get k))
      (concat (map (page_at get) [0..<k]) @ page_at get k)
      (list_ex (clipped_at get) [0..<k] \<or> clipped_at get k)"
    using ns r by (subst paginated_loop.simps) (simp add: stop_at_def pg tot cl Let_def)
  finally show ?case by (simp add: offset_at_Suc del: offset_at.simps)
qed

lemma paginated_loop_test_unroll:
  assumes "\<forall>i < k. (\<exists>response. get i (offset_at get i) = Inr response)
             \<and> \<not> length (page_at get i) < limit"
  shows "paginated_loop_test get limit 0 0 []
     = paginated_loop_test get limit k (offset_at get k) (concat (map (page_at get) [0..<k]))"
  using assms
proof (induction k)
  case 0
  then show ?case by simp
next
  case (Suc k)
  from Suc.prems obtain response where r: "get k (offset_at get k) = Inr response"
    and ns: "\<not> length (page_at get k) < limit" by auto
  have pg: "page_at get k = or_empty (page_items response)"
    using r by (simp add: page_at_def)
  have "paginated_loop_test get limit 0 0 []
      = paginated_loop_test get limit k (offset_at get k) (concat (map (page_at get) [0..<k]))"
    using Suc by simp
  also have "\<dots> = paginated_loop_test get limit (k + 1) (offset_at get k + length (page_at get k))
      (concat (map (page_at get) [0..<k]) @ page_at get k)"
    using ns r by (subst paginated_loop_test.simps) (simp add: pg Let_def)
  finally show ?case by (simp add: offset_at_Suc del: offset_at.simps)
qed

lemma paginatedFetch_first_stop:
  assumes "\<forall>i \<le> k. \<exists>response. get i (offset_at get i) = Inr response"
    and "stop_at get limit k" and "\<forall>i < k. \<not> stop_at get limit i"
  shows "paginatedFetch get limit
     = Some (Inr (concat (map (page_at get) [0..<Suc k]), list_ex (clipped_at get) [0..<Suc k]))"
proof -
  from assms(1) obtain response where r: "get k (offset_at get k) = Inr response" by auto
  have pg: "page_at get k = or_empty (page_items response)"
    and tot: "total_at get k = or_zero (total_count response)"
    and cl: "clipped_at get k = is_total_count_clipped response"
    using r by (simp_all add: page_at_def total_at_def clipped_at_def)
  have "paginatedFetch get limit
      = paginated_loop get limit k (offset_at get k) (concat (map (page_at get) [0..<k]))
          (list_ex (clipped_at get) [0..<k])"
    unfolding paginatedFetch_def using assms(1,3) by (intro paginated_loop_unroll) simp
  also have "\<dots> = Some (Inr (concat (map (page_at get) [0..<k]) @ page_at get k,
      list_ex (clipped_at get) [0..<k] \<or> clipped_at get k))"
    using assms(2) r by (subst paginated_loop.simps) (simp add: stop_at_def pg tot cl Let_def)
  finally show ?thesis by simp
qed

lemma paginatedFetch_test_first_short:
  assumes "\<forall>i \<le> k. \<exists>response. get i (offset_at get i) = Inr response"
    and "length (page_at get k) < limit" and "\<forall>i < k. \<not> length (page_at get i) < limit"
  shows "paginatedFetch_test get limit = Some (Inr (concat (map (page_at get) [0..<Suc k])))"
proof -
  from assms(1) obtain response where r: "get k (offset_at get k) = Inr response" by auto
  have pg: "page_at get k = or_empty (page_items response)"
    using r by (simp add: page_at_def)
  have "paginatedFetch_test get limit
      = paginated_loop_test get limit k (offset_at get k) (concat (map (page_at get) [0..<k]))"
    unfolding paginatedFetch_test_def using assms(1,3) by (intro paginated_loop_test_unroll) simp
  also have "\<dots> = Some (Inr (concat (map (page_at get) [0..<k]) @ page_at get k))"
    using assms(2) r by (subst paginated_loop_test.simps) (simp add: pg Let_def)
  finally show ?thesis by simp
qed

lemma short_page_stops: "length (page_at get i) < limit \<Longrightarrow> stop_at get limit i"
  by (simp add: stop_at_def)

text \<open>
  C7 (amended). While the requests succeed: \<open>paginatedFetch\<close> of \<open>utils.js\<close> returns at the
  first page that is shorter than \<open>limit\<close> or whose end offset reaches the reported
  \<open>total_count\<close> (an absent one counts as 0), with the pages requested in order and
  whether one of them was flagged clipped; the test script's copy returns at the first
  page shorter than \<open>limit\<close>, with the pages requested in order. When some page is shorter
  than \<open>limit\<close> both return, after no more requests than up to that page.
\<close>

theorem paginatedFetch_terminates:
  assumes "\<forall>i \<le> k. \<exists>response. get i (offset_at get i) = Inr response"
  shows "(stop_at get limit k \<and> (\<forall>i < k. \<not> stop_at get limit i) \<longrightarrow>
            paginatedFetch get limit
              = Some (Inr (concat (map (page_at get) [0..<Suc k]),
                           list_ex (clipped_at get) [0..<Suc k])))
       \<and> (length (page_at get k) < limit \<and> (\<forall>i < k. \<not> length (page_at get i) < limit) \<longrightarrow>
            paginatedFetch_test get limit = Some (Inr (concat (map (page_at get) [0..<Suc k]))))
       \<and> (length (page_at get k) < limit \<longrightarrow>
            (\<exists>j \<le> k. paginatedFetch get limit
                = Some (Inr (concat (map (page_at get) [0..<Suc j]),
                             list_ex (clipped_at get) [0..<Suc j])))
            \<and> (\<exists>j \<le> k. paginatedFetch_test get limit
                = Some (Inr (concat (map (page_at get) [0..<Suc j])))))"
proof (intro conjI impI)
  assume "stop_at get limit k \<and> (\<forall>i < k. \<not> stop_at get limit i)"
  then show "paginatedFetch get limit
              = Some (Inr (concat (map (page_at get) [0..<Suc k]),
                           list_ex (clipped_at get) [0..<Suc k]))"
    using assms by (intro paginatedFetch_first_stop) simp_all
next
  assume "length (page_at get k) < limit \<and> (\<forall>i < k. \<not> length (page_at get i) < limit)"
  then show "paginatedFetch_test get limit = Some (Inr (concat (map (page_at get) [0..<Suc k])))"
    using assms by (intro paginatedFetch_test_first_short) simp_all
next
  assume short: "length (page_at get k) < limit"
  define j where "j = (LEAST i. stop_at get limit i)"
  have "stop_at get limit k" using short by (rule short_page_stops)
  then have sj: "stop_at get limit j" and jk: "j \<le> k"
    unfolding j_def by (rule LeastI, rule Least_le)
  have before: "\<forall>i < j. \<not> stop_at get limit i"
    unfolding j_def using not_less_Least by blast
  have ok: "\<forall>i \<le> j. \<exists>response. get i (offset_at get i) = Inr response"
    using assms jk by auto
  from paginatedFetch_first_stop [OF ok sj before] jk
  show "\<exists>j \<le> k. paginatedFetch get limit
                = Some (Inr (concat (map (page_at get) [0..<Suc j]),
                             list_ex (clipped_at get) [0..<Suc j]))"
    by blast
next
  assume short: "length (page_at get k) < limit"
  define j where "j = (LEAST i. length (page_at get i) < limit)"
  have sj: "length (page_at get j) < limit" and jk: "j \<le> k"
    unfolding j_def using short by (rule LeastI, rule Least_le)
  have before: "\<forall>i < j. \<not> length (page_at get i) < limit"
    unfolding j_def using not_less_Least by blast
  have ok: "\<forall>i \<le> j. \<exists>response. get i (offset_at get i) = Inr response"
    using assms jk by auto
  from paginatedFetch_test_first_short [OF ok sj before] jk
  show "\<exists>j \<le> k. paginatedFetch_test get limit
                = Some (Inr (concat (map (page_at get) [0..<Suc j])))"
    by blast
qed

lemma list_server_pages:
  "offset_at (list_server rows reported flagged limit) (Suc i)
     = offset_at (list_server rows reported flagged limit) i
       + length (take limit (drop (offset_at (list_server rows reported flagged limit) i) rows))"
  "page_at (list_server rows reported flagged limit) i
     = take limit (drop (offset_at (list_server rows reported flagged limit) i) rows)"
  "total_at (list_server rows reported flagged limit) i = or_zero reported"
  "clipped_at (list_server rows reported flagged limit) i = flagged"
  "list_server rows reported flagged limit i (offset_at (list_server rows reported flagged limit) i)
     = Inr \<lparr>page_items = Some (take limit (drop (offset_at (list_server rows reported flagged limit) i) rows)),
            total_count = reported, is_total_count_clipped = flagged\<rparr>"
  by (simp_all add: page_at_def total_at_def clipped_at_def list_server_def or_empty_def)

theorem paginatedFetch_terminates_witness:
  "paginatedFetch (list_server [1, 2, 3, 4, 5 :: int] (Some 5) False 2) 2
     = Some (Inr ([1, 2, 3, 4, 5], False))
   \<and> paginatedFetch_test (list_server [1, 2, 3, 4, 5 :: int] (Some 5) False 2) 2
     = Some (Inr [1, 2, 3, 4, 5])"
proof -
  let ?get = "list_server [1, 2, 3, 4, 5 :: int] (Some 5) False 2"
  have o: "offset_at ?get 0 = 0" "offset_at ?get (Suc 0) = 2" "offset_at ?get (Suc (Suc 0)) = 4"
    by (simp_all add: list_server_pages(1) del: offset_at.simps(2))
  have p: "page_at ?get 0 = [1, 2]" "page_at ?get (Suc 0) = [3, 4]"
      "page_at ?get (Suc (Suc 0)) = [5]"
    by (simp_all add: list_server_pages(2) o del: offset_at.simps(2))
  have h: "\<forall>i \<le> Suc (Suc 0). \<exists>response. ?get i (offset_at ?get i) = Inr response"
    by (simp add: list_server_def)
  have s: "stop_at ?get 2 (Suc (Suc 0))" "\<forall>i < Suc (Suc 0). \<not> stop_at ?get 2 i"
    by (simp_all add: stop_at_def p o list_server_pages(3) or_zero_def less_Suc_eq del: offset_at.simps(2))
  have sh: "length (page_at ?get (Suc (Suc 0))) < 2"
      "\<forall>i < Suc (Suc 0). \<not> length (page_at ?get i) < 2"
    by (simp_all add: p less_Suc_eq)
  have u: "[0..<Suc (Suc (Suc 0))] = [0, Suc 0, Suc (Suc 0)]" by (simp add: upt_conv_Cons)
  note t = paginatedFetch_terminates [where get = ?get and k = "Suc (Suc 0)" and limit = 2, OF h]
  from t s have "paginatedFetch ?get 2
      = Some (Inr (concat (map (page_at ?get) [0..<Suc (Suc (Suc 0))]),
                   list_ex (clipped_at ?get) [0..<Suc (Suc (Suc 0))]))"
    by blast
  moreover from t sh have "paginatedFetch_test ?get 2
      = Some (Inr (concat (map (page_at ?get) [0..<Suc (Suc (Suc 0))])))"
    by blast
  ultimately show ?thesis
    unfolding u by (simp add: p list_server_pages(4))
qed

text \<open>
  C7 as stated fails for \<open>paginatedFetch\<close> of \<open>utils.js\<close>: with four items behind a total
  count clipped to the page size, it returns after the first request, whose page is full;
  the third page is the short one, and the test script's copy reads up to it.
\<close>

theorem paginatedFetch_stops_on_full_page_counterexample:
  "paginatedFetch (list_server [1, 2, 3, 4 :: int] (Some 2) True 2) 2 = Some (Inr ([1, 2], True))
   \<and> length (page_at (list_server [1, 2, 3, 4 :: int] (Some 2) True 2) 0) = 2
   \<and> length (page_at (list_server [1, 2, 3, 4 :: int] (Some 2) True 2) (Suc (Suc 0))) < 2
   \<and> paginatedFetch_test (list_server [1, 2, 3, 4 :: int] (Some 2) True 2) 2
     = Some (Inr [1, 2, 3, 4])"
proof -
  let ?get = "list_server [1, 2, 3, 4 :: int] (Some 2) True 2"
  have o: "offset_at ?get 0 = 0" "offset_at ?get (Suc 0) = 2" "offset_at ?get (Suc (Suc 0)) = 4"
    by (simp_all add: list_server_pages(1) del: offset_at.simps(2))
  have p: "page_at ?get 0 = [1, 2]" "page_at ?get (Suc 0) = [3, 4]"
      "page_at ?get (Suc (Suc 0)) = []"
    by (simp_all add: list_server_pages(2) o del: offset_at.simps(2))
  have h0: "\<forall>i \<le> 0. \<exists>response. ?get i (offset_at ?get i) = Inr response"
    by (simp add: list_server_def)
  have h2: "\<forall>i \<le> Suc (Suc 0). \<exists>response. ?get i (offset_at ?get i) = Inr response"
    by (simp add: list_server_def)
  have s0: "stop_at ?get 2 0" "\<forall>i < (0::nat). \<not> stop_at ?get 2 i"
    by (simp_all add: stop_at_def p o list_server_pages(3) or_zero_def del: offset_at.simps(2))
  have sh: "length (page_at ?get (Suc (Suc 0))) < 2"
      "\<forall>i < Suc (Suc 0). \<not> length (page_at ?get i) < 2"
    by (simp_all add: p less_Suc_eq)
  have u: "[0..<Suc (Suc (Suc 0))] = [0, Suc 0, Suc (Suc 0)]" by (simp add: upt_conv_Cons)
  have a: "paginatedFetch ?get 2 = Some (Inr ([1, 2], True))"
    using paginatedFetch_first_stop [where get = ?get and k = 0 and limit = 2, OF h0 s0]
    by (simp add: p list_server_pages(4))
  have b: "paginatedFetch_test ?get 2 = Some (Inr [1, 2, 3, 4])"
    using paginatedFetch_test_first_short [where get = ?get and k = "Suc (Suc 0)" and limit = 2,
        OF h2 sh]
    unfolding u by (simp add: p)
  from a b show ?thesis by (simp add: p)
qed

section \<open>Properties of a run from its constructed inputs\<close>

lemma set_add_distinct: "distinct members \<Longrightarrow> distinct (set_add x members)"
  by (simp add: set_add_def)

lemma fold_set_add_distinct: "distinct members \<Longrightarrow> distinct (fold set_add xs members)"
  by (induction xs arbitrary: members) (simp_all add: set_add_distinct)

lemma fold_positive_distinct:
  "distinct members \<Longrightarrow>
   distinct (fold (\<lambda>entry members. if 0 < snd entry then set_add (fst entry) members else members)
               (sharesEntries :: (string \<times> int) list) members)"
  by (induction sharesEntries arbitrary: members) (simp_all add: set_add_distinct)

lemma active_validators_distinct: "distinct (active_validators sharesEntries currentKeys)"
  unfolding active_validators_def
  by (intro distinct_filter fold_set_add_distinct fold_positive_distinct) simp

lemma initial_states_fold_dom:
  "dom (fold (\<lambda>v validatorState. validatorState(v \<mapsto>
             initial_state (or_zero (sharesPerValidator' v)) (initialHistoryEntry v)))
       validators start) = set validators \<union> dom start"
  by (induction validators arbitrary: start) auto

lemma initial_states_dom:
  "dom (initial_states validators sharesPerValidator' initialHistoryEntry) = set validators"
  by (simp add: initial_states_def initial_states_fold_dom)

lemma rows_of_constructed_run:
  assumes "reward_rows granularity startEpoch endEpoch epochTimestamps eventsByEpoch
             (active_validators sharesEntries currentKeys) validatorHistories
             (initial_states (active_validators sharesEntries currentKeys) sharesPerValidator'
                initialHistoryEntry) = Inr results"
  shows "(\<forall>r \<in> set results. start_epoch r = startEpoch
            \<and> start_timestamp r = or_empty (epochTimestamps startEpoch))
       \<and> sorted_wrt (<) (map end_epoch (rows_of v results))"
proof -
  define validators where "validators = active_validators sharesEntries currentKeys"
  define validatorState where
    "validatorState = initial_states validators sharesPerValidator' initialHistoryEntry"
  define final where "final = fold (sample_pass startEpoch epochTimestamps eventsByEpoch validators
      validatorHistories) (epochsToProcess granularity startEpoch endEpoch)
      ([], startEpoch, validatorState)"
  have d: "distinct validators" by (simp add: validators_def active_validators_distinct)
  have s: "set validators \<subseteq> dom validatorState"
    by (simp add: validatorState_def initial_states_dom)
  have "results = fst final"
    using assms by (cases final) (simp add: reward_rows_def process_epochs_fold [OF s]
        final_def [symmetric] validators_def [symmetric] validatorState_def [symmetric])
  moreover have "(\<forall>r \<in> set (fst final). start_epoch r = startEpoch
            \<and> start_timestamp r = or_empty (epochTimestamps startEpoch))
       \<and> sorted_wrt (<) (map end_epoch (rows_of v (fst final)))"
    unfolding final_def
    by (intro fold_sample_pass_rows epochsToProcess_sorted d) (simp_all add: rows_of_def)
  ultimately show ?thesis by simp
qed

end
